theory Spec2Isabelle
  imports Main
begin

chapter \<open>The model\<close>

section \<open>Thrown values\<close>

text \<open>
  A JavaScript exception value, kept by the text that \<^verbatim>\<open>String(e)\<close> gives for it.
\<close>

datatype exn = Exn string

fun String_of :: "exn \<Rightarrow> string" where
  "String_of (Exn s) = s"

section \<open>The action library: Action.Asynchronous_Action\<close>

text \<open>
  \<^verbatim>\<open>Action.State = { Init: 0, Ready: 1, Running: 2, Done: 3, Exception: 4 }\<close>
\<close>

datatype action_state = Init | Ready | Running | Done | Exception

text \<open>
  The two prototypes of the file that supply \<^verbatim>\<open>_go\<close>: \<^verbatim>\<open>Action.Defer_class\<close> and
  \<^verbatim>\<open>Action.Delay_class\<close>. Functions handed to an action (\<^verbatim>\<open>try_f\<close>, \<^verbatim>\<open>finally_f\<close>,
  \<^verbatim>\<open>catch_f\<close>) are opaque: a number names each, and \<open>None\<close> is \<^verbatim>\<open>undefined\<close>.
\<close>

datatype action_class = Defer_class | Delay_class

record action =
  action_class :: action_class
  a_state :: action_state
  finally_f :: "nat option"
  catch_f :: "nat option"
  try_f :: "nat option"
  duration :: nat
  timer_id :: "nat option"

text \<open>
  \<^verbatim>\<open>Async_Platform\<close> is not part of the sources: its two entry points are parameters.
  Each takes the platform's state and returns the new one, with the exception it threw
  if it threw one.
\<close>

record 'p async_platform =
  dispatch :: "'p \<Rightarrow> 'p \<times> exn option"
  set_timer :: "nat \<Rightarrow> 'p \<Rightarrow> 'p \<times> (exn + nat)"

text \<open>
  \<^verbatim>\<open>Action.Asynchronous_Action.init = function() { this._state = Action.State.Ready; }\<close>,
  and the instance constructors \<^verbatim>\<open>Action.Defer(f)\<close> and \<^verbatim>\<open>Action.Delay(f, duration)\<close>
  that call it.
\<close>

definition Asynchronous_Action_init :: "action \<Rightarrow> action" where
  "Asynchronous_Action_init a = a\<lparr>a_state := Ready\<rparr>"

definition Defer :: "nat option \<Rightarrow> action" where
  "Defer f =
     (Asynchronous_Action_init
        \<lparr>action_class = Defer_class, a_state = Init, finally_f = None, catch_f = None,
         try_f = None, duration = 0, timer_id = None\<rparr>)\<lparr>try_f := f\<rparr>"

definition Delay :: "nat option \<Rightarrow> nat \<Rightarrow> action" where
  "Delay f d =
     (Asynchronous_Action_init
        \<lparr>action_class = Delay_class, a_state = Init, finally_f = None, catch_f = None,
         try_f = None, duration = 0, timer_id = None\<rparr>)\<lparr>try_f := f, duration := d\<rparr>"

text \<open>
  The subprogram \<^verbatim>\<open>_go\<close>:
  \<^verbatim>\<open>Defer_class: Async_Platform.dispatch( this._body.bind( this ) );\<close>
  \<^verbatim>\<open>Delay_class: this.timer_id = Async_Platform.set_timer( this._body.bind( this ), this.duration );\<close>
  The result is the action and the platform afterwards, and the exception that left
  \<^verbatim>\<open>_go\<close>, if one did.
\<close>

definition go_sub :: "'p async_platform \<Rightarrow> action \<Rightarrow> 'p \<Rightarrow> (action \<times> 'p) \<times> exn option" where
  "go_sub P a p =
     (case action_class a of
        Defer_class \<Rightarrow> (case dispatch P p of (p', r) \<Rightarrow> ((a, p'), r))
      | Delay_class \<Rightarrow>
          (case set_timer P (duration a) p of
             (p', Inl e) \<Rightarrow> ((a, p'), Some e)
           | (p', Inr t) \<Rightarrow> ((a\<lparr>timer_id := Some t\<rparr>, p'), None)))"

text \<open>
  How a call of \<^verbatim>\<open>go\<close> ends: with the Error that \<^verbatim>\<open>go\<close> itself throws, or after the
  subprogram was invoked (which returned, or threw an exception that \<^verbatim>\<open>go\<close> lets through).
\<close>

datatype go_outcome = Go_Error | Subprogram_Started "exn option"

text \<open>
  \<^verbatim>\<open>
  Action.Asynchronous_Action.prototype.go = function( finally_f, catch_f )
  {
    if ( this._state != Action.State.Ready )
    {
      throw new Error( "Call to go() is invalid because the action is not in state 'Ready'." );
    }
    this.finally_f = finally_f;
    this.catch_f = catch_f;
    this._state = Action.State.Running;
    this._go();
  };
  \<close>
\<close>

definition go ::
  "'p async_platform \<Rightarrow> nat option \<Rightarrow> nat option \<Rightarrow> action \<Rightarrow> 'p \<Rightarrow> (action \<times> 'p) \<times> go_outcome"
where
  "go P fin cat a p =
     (if a_state a \<noteq> Ready then ((a, p), Go_Error)
      else
        (case go_sub P (a\<lparr>finally_f := fin, catch_f := cat, a_state := Running\<rparr>) p of
           (ap, r) \<Rightarrow> (ap, Subprogram_Started r)))"

text \<open>
  \<^verbatim>\<open>end_well\<close> sets the state to Done and runs the finally function; \<^verbatim>\<open>end_badly\<close> sets
  it to Exception and runs the catch function, then (in a \<^verbatim>\<open>finally\<close> block) the finally
  function. The second component lists the functions called, in order.
\<close>

definition end_well :: "action \<Rightarrow> action \<times> nat list" where
  "end_well a = (a\<lparr>a_state := Done\<rparr>, (case finally_f a of None \<Rightarrow> [] | Some f \<Rightarrow> [f]))"

definition end_badly :: "action \<Rightarrow> action \<times> nat list" where
  "end_badly a =
     (a\<lparr>a_state := Exception\<rparr>,
      (case catch_f a of None \<Rightarrow> [] | Some c \<Rightarrow> [c]) @
      (case finally_f a of None \<Rightarrow> [] | Some f \<Rightarrow> [f]))"

text \<open>
  The methods that touch \<^verbatim>\<open>_state\<close>, as calls on one action; a run of calls keeps the
  outcome of every \<^verbatim>\<open>go\<close> among them.
\<close>

datatype action_call = Call_go "nat option" "nat option" | Call_end_well | Call_end_badly

fun call_method ::
  "'p async_platform \<Rightarrow> action_call \<Rightarrow> (action \<times> 'p) \<times> go_outcome list \<Rightarrow> (action \<times> 'p) \<times> go_outcome list"
where
  "call_method P (Call_go fin cat) ((a, p), os) =
     (case go P fin cat a p of (ap, r) \<Rightarrow> (ap, os @ [r]))"
| "call_method P Call_end_well ((a, p), os) = ((fst (end_well a), p), os)"
| "call_method P Call_end_badly ((a, p), os) = ((fst (end_badly a), p), os)"

fun call_methods ::
  "'p async_platform \<Rightarrow> action_call list \<Rightarrow> (action \<times> 'p) \<times> go_outcome list \<Rightarrow> (action \<times> 'p) \<times> go_outcome list"
where
  "call_methods P [] s = s"
| "call_methods P (m # ms) s = call_methods P ms (call_method P m s)"

fun started :: "go_outcome \<Rightarrow> bool" where
  "started Go_Error = False"
| "started (Subprogram_Started r) = True"

text \<open>A platform for concrete runs: its state counts the callbacks it was handed.\<close>

definition counting_platform :: "nat async_platform" where
  "counting_platform =
     \<lparr>dispatch = (\<lambda>n. (Suc n, None)), set_timer = (\<lambda>d n. (Suc n, Inr n))\<rparr>"

section \<open>Gathering page information (lib/child/processScript.js, lib/child/frameScript.js)\<close>

text \<open>
  How a call ends: it returns a value, or an exception leaves it.
\<close>

datatype 'a completion = Normal 'a | Throw exn

text \<open>
  The object that \<^verbatim>\<open>gatherPageInfo\<close> fills and that the child process sends as
  \<^verbatim>\<open>pageInfo\<close>; a field that was never assigned is \<open>None\<close>.
\<close>

record page_info =
  headers :: "string list option"
  screenshot :: "string option"
  source :: "string option"
  error :: "string option"

definition empty_page_info :: page_info where
  "empty_page_info = \<lparr>headers = None, screenshot = None, source = None, error = None\<rparr>"

text \<open>
  The window as the host hands it over. \<^verbatim>\<open>document.documentElement\<close> is an element or
  null; every other field is what the host call of that name does on this window: it
  returns, or throws the given exception.
\<close>

record element =
  scrollWidth :: nat
  scrollHeight :: nat

record dom_window =
  documentElement :: "element option"
  createElementNS :: "exn option"
  getContext :: "exn option"
  drawWindow :: "exn option"
  toDataURL :: "exn + string"
  new_XMLSerializer :: "exn option"
  serializeToString :: "exn + string"

text \<open>
  The body of the \<^verbatim>\<open>try\<close> block of \<^verbatim>\<open>gatherPageInfo\<close>, first the screenshot:
  \<^verbatim>\<open>
      let canvas = document.createElementNS("http://www.w3.org/1999/xhtml", "canvas");
      canvas.width = document.documentElement.scrollWidth;
      canvas.height = document.documentElement.scrollHeight;
      if (canvas.width > 0 && canvas.height > 0)
      {
        let context = canvas.getContext("2d");
        context.drawWindow(wnd, 0, 0, canvas.width, canvas.height, "rgb(255, 255, 255)");
        result.screenshot = canvas.toDataURL("image/jpeg", 0.8);
      }
  \<close>
  The result object is returned together with the exception that ended the block, if
  any: what was assigned before a throw stays assigned.
\<close>

definition gather_screenshot :: "dom_window \<Rightarrow> element \<Rightarrow> page_info \<Rightarrow> page_info \<times> exn option" where
  "gather_screenshot w el result =
     (case createElementNS w of
        Some e \<Rightarrow> (result, Some e)
      | None \<Rightarrow>
          if scrollWidth el > 0 \<and> scrollHeight el > 0 then
            (case getContext w of
               Some e \<Rightarrow> (result, Some e)
             | None \<Rightarrow>
                 (case drawWindow w of
                    Some e \<Rightarrow> (result, Some e)
                  | None \<Rightarrow>
                      (case toDataURL w of
                         Inl e \<Rightarrow> (result, Some e)
                       | Inr url \<Rightarrow> (result\<lparr>screenshot := Some url\<rparr>, None))))
          else (result, None))"

text \<open>
  \<^verbatim>\<open>
      let serializer = new wnd.XMLSerializer();
      result.source = serializer.serializeToString(document.documentElement);
  \<close>
\<close>

definition gather_source :: "dom_window \<Rightarrow> page_info \<Rightarrow> page_info \<times> exn option" where
  "gather_source w result =
     (case new_XMLSerializer w of
        Some e \<Rightarrow> (result, Some e)
      | None \<Rightarrow>
          (case serializeToString w of
             Inl e \<Rightarrow> (result, Some e)
           | Inr s \<Rightarrow> (result\<lparr>source := Some s\<rparr>, None)))"

definition gather_try :: "dom_window \<Rightarrow> element \<Rightarrow> page_info \<Rightarrow> page_info \<times> exn option" where
  "gather_try w el result =
     (case gather_screenshot w el result of
        (r, Some e) \<Rightarrow> (r, Some e)
      | (r, None) \<Rightarrow> gather_source w r)"

text \<open>
  \<^verbatim>\<open>
  function gatherPageInfo(wnd)
  {
    let document = wnd.document;
    let result = {};
    if (document.documentElement)
    {
      try { ... }
      catch (e)
      {
        reportException(e);
        result.error = "Cannot gather page info";
      }
    }
    return result;
  }
  \<close>
  The function is the same text in both files. The second component of the value is
  the list of exceptions given to \<^verbatim>\<open>reportException\<close>.
\<close>

definition gatherPageInfo :: "dom_window \<Rightarrow> (page_info \<times> exn list) completion" where
  "gatherPageInfo wnd =
     (let result = empty_page_info in
      case documentElement wnd of
        None \<Rightarrow> Normal (result, [])
      | Some el \<Rightarrow>
          (case gather_try wnd el result of
             (r, None) \<Rightarrow> Normal (r, [])
           | (r, Some e) \<Rightarrow> Normal (r\<lparr>error := Some ''Cannot gather page info''\<rparr>, [e])))"

text \<open>Two windows for concrete runs: one that loads well, one whose serializer throws.\<close>

definition good_window :: dom_window where
  "good_window =
     \<lparr>documentElement = Some \<lparr>scrollWidth = 800, scrollHeight = 600\<rparr>,
      createElementNS = None, getContext = None, drawWindow = None,
      toDataURL = Inr ''data:image/jpeg;base64,AAAA'',
      new_XMLSerializer = None, serializeToString = Inr ''<html/>''\<rparr>"

definition broken_window :: dom_window where
  "broken_window = good_window\<lparr>serializeToString := Inl (Exn ''NS_ERROR_FAILURE'')\<rparr>"

section \<open>The completion registry: PageInfoListener\<close>

text \<open>
  A promise is pending, fulfilled with a value, or rejected. \<^verbatim>\<open>expect\<close> never calls
  \<^verbatim>\<open>reject\<close>; the constructor is there so that "fulfilled" says something.
\<close>

datatype promise_state = Pending | Fulfilled page_info | Rejected exn

text \<open>
  The arrow function \<^verbatim>\<open>onDone\<close> that a call of \<^verbatim>\<open>expect\<close> creates. It captures the
  \<^verbatim>\<open>outerWindowID\<close> of the call, its \<^verbatim>\<open>timerID\<close> and the \<^verbatim>\<open>resolve\<close> function of its
  promise. The n-th call of \<^verbatim>\<open>expect\<close> (counted from 0) names both its timer and its
  promise n, so a closure is the window id and that number.
\<close>

datatype closure = OnDone nat nat

text \<open>
  \<^verbatim>\<open>this._timeout\<close>, the Map \<^verbatim>\<open>this._pageInfoSetters\<close>, the host's table of timers that
  are set and have neither fired nor been cleared, the promises created so far, and the
  number of calls of \<^verbatim>\<open>expect\<close>.
\<close>

record listener =
  l_timeout :: nat
  pageInfoSetters :: "nat \<Rightarrow> closure option"
  timers :: "nat \<Rightarrow> closure option"
  promises :: "nat \<Rightarrow> promise_state option"
  registrations :: nat

definition PageInfoListener :: "nat \<Rightarrow> listener" where
  "PageInfoListener t =
     \<lparr>l_timeout = t, pageInfoSetters = (\<lambda>k. None), timers = (\<lambda>r. None),
      promises = (\<lambda>r. None), registrations = 0\<rparr>"

text \<open>The object \<^verbatim>\<open>{error: "timeout"}\<close> bound to the timer's callback.\<close>

definition timeout_info :: page_info where
  "timeout_info = empty_page_info\<lparr>error := Some ''timeout''\<rparr>"

text \<open>Calling \<^verbatim>\<open>resolve\<close> settles a pending promise and does nothing to a settled one.\<close>

definition resolve :: "nat \<Rightarrow> page_info \<Rightarrow> (nat \<Rightarrow> promise_state option) \<Rightarrow> (nat \<Rightarrow> promise_state option)" where
  "resolve r v ps = (case ps r of Some Pending \<Rightarrow> ps(r \<mapsto> Fulfilled v) | _ \<Rightarrow> ps)"

text \<open>
  \<^verbatim>\<open>
      let onDone = (pageInfo) =>
      {
        this._pageInfoSetters.delete(outerWindowID);
        clearTimeout(timerID);
        resolve(pageInfo);
      }
  \<close>
\<close>

fun onDone :: "closure \<Rightarrow> page_info \<Rightarrow> listener \<Rightarrow> listener" where
  "onDone (OnDone outerWindowID r) pageInfo L =
     L\<lparr>pageInfoSetters := (pageInfoSetters L)(outerWindowID := None),
       timers := (timers L)(r := None),
       promises := resolve r pageInfo (promises L)\<rparr>"

text \<open>
  \<^verbatim>\<open>
  expect: function(outerWindowID)
  {
    let pageInfoFuture = new Promise((resolve, reject) =>
    {
      let timerID;
      let onDone = ...
      timerID = setTimeout(onDone.bind(this, {error: "timeout"}), this._timeout);
      this._pageInfoSetters.set(outerWindowID, onDone);
    });
    return pageInfoFuture;
  }
  \<close>
  The value is the promise returned and the listener afterwards.
\<close>

definition expect :: "nat \<Rightarrow> listener \<Rightarrow> nat \<times> listener" where
  "expect outerWindowID L =
     (let r = registrations L; c = OnDone outerWindowID r in
      (r, L\<lparr>promises := (promises L)(r \<mapsto> Pending),
            timers := (timers L)(r \<mapsto> c),
            pageInfoSetters := (pageInfoSetters L)(outerWindowID \<mapsto> c),
            registrations := Suc r\<rparr>))"

text \<open>
  \<^verbatim>\<open>
  setPageInfo: function(outerWindowID, pageInfo)
  {
    let pageInfoSetter = this._pageInfoSetters.get(outerWindowID);
    if (pageInfoSetter)
    {
      pageInfoSetter(pageInfo);
    }
  }
  \<close>
  No statement of \<^verbatim>\<open>setPageInfo\<close> or \<^verbatim>\<open>onDone\<close> throws (\<^verbatim>\<open>Map.get\<close>, \<^verbatim>\<open>Map.delete\<close>,
  \<^verbatim>\<open>clearTimeout\<close> and \<^verbatim>\<open>resolve\<close> do not), so the model has no exception to return.
\<close>

definition setPageInfo :: "nat \<Rightarrow> page_info \<Rightarrow> listener \<Rightarrow> listener" where
  "setPageInfo outerWindowID pageInfo L =
     (case pageInfoSetters L outerWindowID of
        None \<Rightarrow> L
      | Some pageInfoSetter \<Rightarrow> onDone pageInfoSetter pageInfo L)"

text \<open>
  The host runs the callback of a timer that is still set: it drops the timer and calls
  \<^verbatim>\<open>onDone\<close> with the timeout object. A timer that was cleared or has fired does nothing.
\<close>

definition timer_fires :: "nat \<Rightarrow> listener \<Rightarrow> listener" where
  "timer_fires r L =
     (case timers L r of
        None \<Rightarrow> L
      | Some c \<Rightarrow> onDone c timeout_info (L\<lparr>timers := (timers L)(r := None)\<rparr>))"

text \<open>What can happen to a listener, and a run of such events.\<close>

datatype listener_event = Expect nat | SetPageInfo nat page_info | TimerFires nat

fun listener_step :: "listener_event \<Rightarrow> listener \<Rightarrow> listener" where
  "listener_step (Expect k) L = snd (expect k L)"
| "listener_step (SetPageInfo k v) L = setPageInfo k v L"
| "listener_step (TimerFires r) L = timer_fires r L"

fun listener_run :: "listener_event list \<Rightarrow> listener \<Rightarrow> listener" where
  "listener_run [] L = L"
| "listener_run (e # es) L = listener_run es (listener_step e L)"

text \<open>An event is a signal for a key; an event is the firing of a timer.\<close>

fun signals :: "nat \<Rightarrow> listener_event \<Rightarrow> bool" where
  "signals k (SetPageInfo k' v) = (k' = k)"
| "signals k (Expect k') = False"
| "signals k (TimerFires r) = False"

fun fires :: "nat \<Rightarrow> listener_event \<Rightarrow> bool" where
  "fires r (TimerFires r') = (r' = r)"
| "fires r (Expect k) = False"
| "fires r (SetPageInfo k v) = False"

text \<open>
  What holds of every listener that the operations build: a registered setter is the
  closure of its own key and its timer is still set; a timer that is set belongs to a
  closure whose promise is pending.
\<close>

definition listener_wf :: "listener \<Rightarrow> bool" where
  "listener_wf L \<longleftrightarrow>
     (\<forall>k c. pageInfoSetters L k = Some c \<longrightarrow>
        (\<exists>r. c = OnDone k r \<and> timers L r = Some c)) \<and>
     (\<forall>r c. timers L r = Some c \<longrightarrow>
        (\<exists>k. c = OnDone k r) \<and> promises L r = Some Pending \<and> r < registrations L)"

section \<open>The job: crawl_url\<close>

text \<open>
  One entry that the \<^verbatim>\<open>RequestNotifier\<close> callback pushes to \<^verbatim>\<open>result.requests\<close>:
  \<^verbatim>\<open>{location, contentType, filter}\<close>.
\<close>

datatype request = Request string string "string option"

text \<open>
  The object \<^verbatim>\<open>result\<close> of a job, which is also what is sent to the collector. It has
  the fields of a \<^verbatim>\<open>pageInfo\<close> (copied in by \<^verbatim>\<open>Object.assign\<close>) and those the job sets
  itself; a field that was never assigned is \<open>None\<close>.
\<close>

record job_record = page_info +
  url :: string
  requests :: "request list option"
  startTime :: "nat option"
  endTime :: "nat option"
  finalUrl :: "string option"
  channelStatus :: "nat option"

text \<open>\<^verbatim>\<open>let result = {url, requests: []};\<close>\<close>

definition new_result :: "string \<Rightarrow> job_record" where
  "new_result u =
     \<lparr>headers = None, screenshot = None, source = None, error = None,
      url = u, requests = Some [], startTime = None, endTime = None, finalUrl = None,
      channelStatus = None\<rparr>"

text \<open>
  \<^verbatim>\<open>Object.assign(result, pageInfo)\<close> copies the properties that \<^verbatim>\<open>pageInfo\<close> has.
\<close>

definition Object_assign :: "job_record \<Rightarrow> page_info \<Rightarrow> job_record" where
  "Object_assign result pageInfo =
     result\<lparr>headers := (case headers pageInfo of None \<Rightarrow> headers result | Some h \<Rightarrow> Some h),
            screenshot := (case screenshot pageInfo of None \<Rightarrow> screenshot result | Some s \<Rightarrow> Some s),
            source := (case source pageInfo of None \<Rightarrow> source result | Some s \<Rightarrow> Some s),
            error := (case error pageInfo of None \<Rightarrow> error result | Some s \<Rightarrow> Some s)\<rparr>"

text \<open>
  What a job does to the world outside it, in order: the calls it makes on the request
  notifier, the listener, the browser and the tab allocator.
\<close>

datatype job_call =
    New_RequestNotifier nat
  | Listener_expect nat
  | LoadURI string
  | WaitForLoad nat
  | Report_exception exn
  | Notifier_shutdown
  | ReleaseTab nat

text \<open>
  What the world does to one job: the clock readings, the entries the request notifier
  delivers while the page loads (\<^verbatim>\<open>null\<close> entries are skipped by the callback), the
  value the awaited promise is fulfilled with, and for every host call whether it
  returns or throws. \<^verbatim>\<open>load_result\<close> and \<^verbatim>\<open>content\<close> are read by the second variant only.
\<close>

record job_env =
  now_start :: nat
  new_RequestNotifier :: "exn option"
  entries :: "request option list"
  loadURI :: "exn option"
  pageInfo :: page_info
  load_result :: "nat \<times> string list"
  currentURI_spec :: "exn + string"
  now_end :: nat
  content :: dom_window
  notifier_shutdown :: "exn option"

definition push_entries :: "request option list \<Rightarrow> job_record \<Rightarrow> job_record" where
  "push_entries es result =
     result\<lparr>requests := Some ((case requests result of None \<Rightarrow> [] | Some rs \<Rightarrow> rs) @
        concat (map (\<lambda>e. case e of None \<Rightarrow> [] | Some r \<Rightarrow> [r]) es))\<rparr>"

text \<open>
  The state of a job inside its \<^verbatim>\<open>try\<close> block: the object \<^verbatim>\<open>result\<close>, whether
  \<^verbatim>\<open>requestNotifier\<close> has been assigned, the calls made so far, and the exception that
  ended the block, if one did.
\<close>

record try_state =
  t_result :: job_record
  t_notifier :: bool
  t_calls :: "job_call list"
  t_thrown :: "exn option"

text \<open>
  The \<^verbatim>\<open>try\<close> block of the first \<^verbatim>\<open>crawl_url\<close> (lines 688 to 708):
  \<^verbatim>\<open>
    result.startTime = Date.now();
    requestNotifier = new RequestNotifier(tab.linkedBrowser.outerWindowID, function(entry, scanComplete) {...});
    let pageInfoFuture = pageInfoListener.expect(tab.linkedBrowser.outerWindowID);
    tab.linkedBrowser.loadURI(url, null, null);
    let pageInfo = yield pageInfoFuture;
    result.finalUrl = tab.linkedBrowser.currentURI.spec;
    Object.assign(result, pageInfo);
    result.endTime = Date.now();
  \<close>
  The promise of \<^verbatim>\<open>expect\<close> is always fulfilled (by a signal or by its timer), never
  rejected, so the \<^verbatim>\<open>yield\<close> returns a \<^verbatim>\<open>pageInfo\<close>.
\<close>

definition try_block1 :: "string \<Rightarrow> nat \<Rightarrow> job_env \<Rightarrow> job_record \<Rightarrow> try_state" where
  "try_block1 u wid env result0 =
     (let r1 = result0\<lparr>startTime := Some (now_start env)\<rparr> in
      case new_RequestNotifier env of
        Some e \<Rightarrow>
          \<lparr>t_result = r1, t_notifier = False, t_calls = [New_RequestNotifier wid], t_thrown = Some e\<rparr>
      | None \<Rightarrow>
          (case loadURI env of
             Some e \<Rightarrow>
               \<lparr>t_result = r1, t_notifier = True,
                t_calls = [New_RequestNotifier wid, Listener_expect wid, LoadURI u],
                t_thrown = Some e\<rparr>
           | None \<Rightarrow>
               (let r2 = push_entries (entries env) r1 in
                case currentURI_spec env of
                  Inl e \<Rightarrow>
                    \<lparr>t_result = r2, t_notifier = True,
                     t_calls = [New_RequestNotifier wid, Listener_expect wid, LoadURI u],
                     t_thrown = Some e\<rparr>
                | Inr spec \<Rightarrow>
                    \<lparr>t_result =
                       (Object_assign (r2\<lparr>finalUrl := Some spec\<rparr>) (pageInfo env))
                         \<lparr>endTime := Some (now_end env)\<rparr>,
                     t_notifier = True,
                     t_calls = [New_RequestNotifier wid, Listener_expect wid, LoadURI u],
                     t_thrown = None\<rparr>)))"

text \<open>
  The screenshot of the second \<^verbatim>\<open>crawl_url\<close>, with a \<^verbatim>\<open>try\<close> and \<^verbatim>\<open>catch\<close> of its own
  and no test of the canvas size (lines 1117 to 1131):
  \<^verbatim>\<open>
      try
      {
        let canvas = document.createElementNS("http://www.w3.org/1999/xhtml", "canvas");
        canvas.width = document.documentElement.scrollWidth;
        canvas.height = document.documentElement.scrollHeight;
        let context = canvas.getContext("2d");
        context.drawWindow(document.defaultView, 0, 0, canvas.width, canvas.height, "rgb(255, 255, 255)");
        result.screenshot = canvas.toDataURL("image/jpeg", 0.8);
      }
      catch (e)
      {
        reportException(e);
        result.error = "Capturing screenshot failed: " + e;
      }
  \<close>
\<close>

definition capture_screenshot2 :: "dom_window \<Rightarrow> job_record \<Rightarrow> job_record \<times> job_call list" where
  "capture_screenshot2 w result =
     (let failed = (\<lambda>e. (result\<lparr>error := Some (''Capturing screenshot failed: '' @ String_of e)\<rparr>,
                           [Report_exception e])) in
      case createElementNS w of
        Some e \<Rightarrow> failed e
      | None \<Rightarrow>
          (case getContext w of
             Some e \<Rightarrow> failed e
           | None \<Rightarrow>
               (case drawWindow w of
                  Some e \<Rightarrow> failed e
                | None \<Rightarrow>
                    (case toDataURL w of
                       Inl e \<Rightarrow> failed e
                     | Inr data \<Rightarrow> (result\<lparr>screenshot := Some data\<rparr>, [])))))"

text \<open>
  The \<^verbatim>\<open>try\<close> block of the second \<^verbatim>\<open>crawl_url\<close> (lines 1097 to 1137):
  \<^verbatim>\<open>
    result.startTime = Date.now();
    requestNotifier = new RequestNotifier(tab.linkedBrowser.outerWindowID, function(entry, scanComplete) {...});
    tab.linkedBrowser.loadURI(url, null, null);
    [result.channelStatus, result.headers] = yield loadListener.waitForLoad(tab);
    result.endTime = Date.now();
    result.finalUrl = tab.linkedBrowser.currentURI.spec;
    let document = tab.linkedBrowser.contentDocument;
    if (document.documentElement)
    {
      try { ... } catch (e) { ... }
      let serializer = new tab.ownerDocument.defaultView.XMLSerializer();
      result.source = serializer.serializeToString(document.documentElement);
    }
  \<close>
\<close>

definition try_block2 :: "string \<Rightarrow> nat \<Rightarrow> nat \<Rightarrow> job_env \<Rightarrow> job_record \<Rightarrow> try_state" where
  "try_block2 u tab wid env result0 =
     (let r1 = result0\<lparr>startTime := Some (now_start env)\<rparr> in
      case new_RequestNotifier env of
        Some e \<Rightarrow>
          \<lparr>t_result = r1, t_notifier = False, t_calls = [New_RequestNotifier wid], t_thrown = Some e\<rparr>
      | None \<Rightarrow>
          (case loadURI env of
             Some e \<Rightarrow>
               \<lparr>t_result = r1, t_notifier = True,
                t_calls = [New_RequestNotifier wid, LoadURI u], t_thrown = Some e\<rparr>
           | None \<Rightarrow>
               (let r2 = (push_entries (entries env) r1)
                           \<lparr>channelStatus := Some (fst (load_result env)),
                            headers := Some (snd (load_result env)),
                            endTime := Some (now_end env)\<rparr>;
                    cs = [New_RequestNotifier wid, LoadURI u, WaitForLoad tab] in
                case currentURI_spec env of
                  Inl e \<Rightarrow> \<lparr>t_result = r2, t_notifier = True, t_calls = cs, t_thrown = Some e\<rparr>
                | Inr spec \<Rightarrow>
                    (let r3 = r2\<lparr>finalUrl := Some spec\<rparr> in
                     case documentElement (content env) of
                       None \<Rightarrow> \<lparr>t_result = r3, t_notifier = True, t_calls = cs, t_thrown = None\<rparr>
                     | Some el \<Rightarrow>
                         (case capture_screenshot2 (content env) r3 of
                            (r4, reported) \<Rightarrow>
                              (case new_XMLSerializer (content env) of
                                 Some e \<Rightarrow>
                                   \<lparr>t_result = r4, t_notifier = True, t_calls = cs @ reported,
                                    t_thrown = Some e\<rparr>
                               | None \<Rightarrow>
                                   (case serializeToString (content env) of
                                      Inl e \<Rightarrow>
                                        \<lparr>t_result = r4, t_notifier = True, t_calls = cs @ reported,
                                         t_thrown = Some e\<rparr>
                                    | Inr s \<Rightarrow>
                                        \<lparr>t_result = r4\<lparr>source := Some s\<rparr>, t_notifier = True,
                                         t_calls = cs @ reported, t_thrown = None\<rparr>)))))))"

text \<open>
  How a job ends: the calls it made, the object \<^verbatim>\<open>result\<close> as it stood when the body
  was left, and what the task's promise is settled with: \<^verbatim>\<open>return result\<close> fulfils it,
  an exception that leaves the generator rejects it.
\<close>

record job_end =
  calls :: "job_call list"
  local_result :: job_record
  final :: "job_record completion"

text \<open>
  The \<^verbatim>\<open>finally\<close> block, the same in both variants, and the \<^verbatim>\<open>return\<close> after it:
  \<^verbatim>\<open>
    finally
    {
      if (requestNotifier)
        requestNotifier.shutdown();
      tabAllocator.releaseTab(tab);
    }
    return result;
  \<close>
  An exception thrown by \<^verbatim>\<open>shutdown\<close> leaves the block at once and replaces the one that
  was on its way; otherwise the exception of the \<^verbatim>\<open>try\<close> block goes on after the block.
\<close>

definition finally_block :: "nat \<Rightarrow> job_env \<Rightarrow> try_state \<Rightarrow> job_end" where
  "finally_block tab env t =
     (if t_notifier t then
        (case notifier_shutdown env of
           Some e \<Rightarrow>
             \<lparr>calls = t_calls t @ [Notifier_shutdown], local_result = t_result t, final = Throw e\<rparr>
         | None \<Rightarrow>
             \<lparr>calls = t_calls t @ [Notifier_shutdown, ReleaseTab tab], local_result = t_result t,
              final = (case t_thrown t of None \<Rightarrow> Normal (t_result t) | Some e \<Rightarrow> Throw e)\<rparr>)
      else
        \<lparr>calls = t_calls t @ [ReleaseTab tab], local_result = t_result t,
         final = (case t_thrown t of None \<Rightarrow> Normal (t_result t) | Some e \<Rightarrow> Throw e)\<rparr>)"

text \<open>
  The two generators, from the point where \<^verbatim>\<open>yield tabAllocator.getTab()\<close> has given
  the job its tab (\<open>wid\<close> is the tab's \<^verbatim>\<open>linkedBrowser.outerWindowID\<close>).
\<close>

definition crawl_url1 :: "string \<Rightarrow> nat \<Rightarrow> nat \<Rightarrow> job_env \<Rightarrow> job_end" where
  "crawl_url1 u tab wid env = finally_block tab env (try_block1 u wid env (new_result u))"

definition crawl_url2 :: "string \<Rightarrow> nat \<Rightarrow> nat \<Rightarrow> job_env \<Rightarrow> job_end" where
  "crawl_url2 u tab wid env = finally_block tab env (try_block2 u tab wid env (new_result u))"

text \<open>Environments for concrete runs.\<close>

definition good_env :: job_env where
  "good_env =
     \<lparr>now_start = 100, new_RequestNotifier = None,
      entries = [Some (Request ''http://a/x.js'' ''SCRIPT'' None), None],
      loadURI = None,
      pageInfo = empty_page_info\<lparr>headers := Some [''HTTP/x.x 200 OK''], source := Some ''<html/>''\<rparr>,
      load_result = (0, [''HTTP/x.x 200 OK'']),
      currentURI_spec = Inr ''http://a/'', now_end = 180, content = good_window,
      notifier_shutdown = None\<rparr>"

definition timeout_env :: job_env where
  "timeout_env = good_env\<lparr>pageInfo := timeout_info, now_end := 30100\<rparr>"

definition failing_env :: job_env where
  "failing_env = good_env\<lparr>loadURI := Some (Exn ''NS_ERROR_MALFORMED_URI'')\<rparr>"

text \<open>The tabs handed to \<^verbatim>\<open>releaseTab\<close> in a list of calls, in order.\<close>

definition releases :: "job_call list \<Rightarrow> nat list" where
  "releases cs = concat (map (\<lambda>c. case c of ReleaseTab t \<Rightarrow> [t] | _ \<Rightarrow> []) cs)"

section \<open>The batch: crawl_urls\<close>

text \<open>
  The state that \<^verbatim>\<open>crawl_urls\<close> and its callbacks share: the tasks spawned whose promise
  is not settled yet (each with its number and the \<^verbatim>\<open>url\<close> bound to its handlers), the
  counter \<^verbatim>\<open>running\<close>, the requests sent to \<^verbatim>\<open>targetURL\<close> (the task and the object given
  to \<^verbatim>\<open>JSON.stringify\<close>), the requests whose \<^verbatim>\<open>load\<close> or \<^verbatim>\<open>error\<close> event has not come
  (by their position among the requests sent), the exceptions given to
  \<^verbatim>\<open>reportException\<close>, and how often \<^verbatim>\<open>windowCloser.stop\<close> and \<^verbatim>\<open>onDone\<close> were called.
\<close>

record batch =
  pending_tasks :: "(nat \<times> string) list"
  running :: int
  sent :: "(nat \<times> job_record) list"
  in_flight :: "nat list"
  reported :: "exn list"
  windowCloser_stops :: nat
  onDone_calls :: nat

text \<open>
  \<^verbatim>\<open>
  let taskDone = function()
  {
    running--;
    if (running <= 0)
    {
      windowCloser.stop();
      onDone();
    }
  };
  \<close>
\<close>

definition taskDone :: "batch \<Rightarrow> batch" where
  "taskDone b =
     (let b' = b\<lparr>running := running b - 1\<rparr> in
      if running b' \<le> 0 then
        b'\<lparr>windowCloser_stops := Suc (windowCloser_stops b'), onDone_calls := Suc (onDone_calls b')\<rparr>
      else b')"

text \<open>
  \<^verbatim>\<open>
  for (let url of urls)
  {
    running++;
    Task.spawn(crawl_url.bind(null, url, tabAllocator, timeout)).then(..., ....bind(null, url));
  }
  \<close>
  \<^verbatim>\<open>Task.spawn\<close> runs the generator up to its first \<^verbatim>\<open>yield\<close> and returns a promise; the
  handlers given to \<^verbatim>\<open>then\<close> run later, after the loop. A task is numbered by its
  place in \<^verbatim>\<open>urls\<close>.
\<close>

fun spawn_loop :: "string list \<Rightarrow> batch \<Rightarrow> batch" where
  "spawn_loop [] b = b"
| "spawn_loop (u # us) b =
     spawn_loop us
       (b\<lparr>running := running b + 1,
          pending_tasks := pending_tasks b @ [(length (pending_tasks b), u)]\<rparr>)"

definition crawl_urls :: "string list \<Rightarrow> batch" where
  "crawl_urls urls =
     spawn_loop urls
       \<lparr>pending_tasks = [], running = 0, sent = [], in_flight = [], reported = [],
        windowCloser_stops = 0, onDone_calls = 0\<rparr>"

text \<open>
  Both handlers send one request:
  \<^verbatim>\<open>
      let request = new XMLHttpRequest();
      request.open("POST", targetURL);
      request.addEventListener("load", taskDone, false);
      request.addEventListener("error", taskDone, false);
      request.send(JSON.stringify(...));
  \<close>
\<close>

definition send_record :: "nat \<Rightarrow> job_record \<Rightarrow> batch \<Rightarrow> batch" where
  "send_record i body b =
     b\<lparr>sent := sent b @ [(i, body)], in_flight := in_flight b @ [length (sent b)]\<rparr>"

text \<open>
  The object the rejection handler sends:
  \<^verbatim>\<open>{ url: url, startTime: Date.now(), error: String(exception) }\<close>
\<close>

definition failure_record :: "string \<Rightarrow> nat \<Rightarrow> exn \<Rightarrow> job_record" where
  "failure_record u now e =
     \<lparr>headers = None, screenshot = None, source = None, error = Some (String_of e),
      url = u, requests = None, startTime = Some now, endTime = None, finalUrl = None,
      channelStatus = None\<rparr>"

text \<open>
  What happens after the loop: the promise of a task is settled (fulfilled with the
  job's result or rejected with its exception; the number is the clock reading when
  the handler runs), or a request sent ends with its \<^verbatim>\<open>load\<close> or its \<^verbatim>\<open>error\<close> event. A
  promise settles once and a request ends once, so an event for a task that is settled
  or for a request that has ended does not occur.
\<close>

datatype xhr_end = Xhr_load | Xhr_error

datatype batch_event =
    Task_settles nat "job_record completion" nat
  | Xhr_ends nat xhr_end

fun batch_step :: "batch_event \<Rightarrow> batch \<Rightarrow> batch" where
  "batch_step (Task_settles i outcome now) b =
     (case map_of (pending_tasks b) i of
        None \<Rightarrow> b
      | Some u \<Rightarrow>
          (let b1 = b\<lparr>pending_tasks := filter (\<lambda>t. fst t \<noteq> i) (pending_tasks b)\<rparr> in
           case outcome of
             Normal result \<Rightarrow> send_record i result b1
           | Throw e \<Rightarrow> send_record i (failure_record u now e) (b1\<lparr>reported := reported b1 @ [e]\<rparr>)))"
| "batch_step (Xhr_ends j x) b =
     (if j \<in> set (in_flight b) then taskDone (b\<lparr>in_flight := removeAll j (in_flight b)\<rparr>) else b)"

fun batch_run :: "batch_event list \<Rightarrow> batch \<Rightarrow> batch" where
  "batch_run [] b = b"
| "batch_run (e # es) b = batch_run es (batch_step e b)"

text \<open>The records sent for one task.\<close>

definition records_of :: "nat \<Rightarrow> batch \<Rightarrow> job_record list" where
  "records_of i b = map snd (filter (\<lambda>s. fst s = i) (sent b))"

text \<open>
  What holds of the batch of \<open>n\<close> urls after the loop and after every event.
\<close>

definition batch_inv :: "string list \<Rightarrow> batch \<Rightarrow> bool" where
  "batch_inv urls b \<longleftrightarrow>
     distinct (map fst (pending_tasks b)) \<and>
     distinct (in_flight b) \<and>
     distinct (map fst (sent b)) \<and>
     (\<forall>t \<in> set (pending_tasks b). fst t < length urls \<and> snd t = urls ! fst t \<and> fst t \<notin> fst ` set (sent b)) \<and>
     (\<forall>j \<in> set (in_flight b). j < length (sent b)) \<and>
     length (sent b) + length (pending_tasks b) = length urls \<and>
     running b = int (length (pending_tasks b)) + int (length (in_flight b)) \<and>
     onDone_calls b = (if urls \<noteq> [] \<and> running b = 0 then 1 else 0) \<and>
     windowCloser_stops b = onDone_calls b"

section \<open>The tabbed browser\<close>

text \<open>
  The host's tabbed browser, as far as the allocator uses it: the tabs that are open,
  in order, and the name the next new tab gets. A tab is named by a number that is never
  given twice.
\<close>

record browser =
  b_tabs :: "nat list"
  b_next :: nat

definition addTab :: "browser \<Rightarrow> nat \<times> browser" where
  "addTab b = (b_next b, b\<lparr>b_tabs := b_tabs b @ [b_next b], b_next := Suc (b_next b)\<rparr>)"

definition removeTab :: "nat \<Rightarrow> browser \<Rightarrow> browser" where
  "removeTab t b = b\<lparr>b_tabs := removeAll t (b_tabs b)\<rparr>"

definition removeAllTabsBut :: "nat \<Rightarrow> browser \<Rightarrow> browser" where
  "removeAllTabsBut t b = b\<lparr>b_tabs := filter (\<lambda>x. x = t) (b_tabs b)\<rparr>"

text \<open>A browser window as the crawler finds it, with \<open>k + 1\<close> tabs open.\<close>

definition browser_window :: "nat \<Rightarrow> browser" where
  "browser_window k = \<lparr>b_tabs = [0..<Suc k], b_next = Suc k\<rparr>"

section \<open>The tab pool: TabAllocator\<close>

text \<open>
  The sources hold two variants of \<^verbatim>\<open>TabAllocator\<close>: the first at lines 390 to 488 of
  part_000 (used with \<^verbatim>\<open>PageInfoListener\<close>), the second at lines 780 to 873 (used with
  \<^verbatim>\<open>LoadListener\<close>). Both are modelled, on one record.

  A callback chained with \<^verbatim>\<open>then\<close> on the promise of \<^verbatim>\<open>_createTab\<close> runs later, when the
  new tab is ready:
  \<^item> \<open>Remove_old t\<close>, first constructor: \<^verbatim>\<open>this._browser.removeTab(tabToRemove); return tab;\<close>
  \<^item> \<open>Release_again t\<close>, first \<^verbatim>\<open>releaseTab\<close>: \<^verbatim>\<open>this.releaseTab(tab); return resultTab;\<close>
  \<^item> \<open>Bootstrap\<close>, second constructor:
    \<^verbatim>\<open>delete this._tab; this._browser.removeAllTabsBut(tab); return tab;\<close>
  \<^item> \<open>Replace t\<close>, second \<^verbatim>\<open>releaseTab\<close>:
    \<^verbatim>\<open>delete this._tab; this.releaseTab(tab); return resultTab;\<close>
\<close>

datatype then_callback = Remove_old nat | Release_again nat | Bootstrap | Replace nat

text \<open>
  The value of the property \<^verbatim>\<open>this.tabs\<close> (no underscore), which only the second
  \<^verbatim>\<open>_createTab\<close> touches: it is never assigned a number, so it is \<^verbatim>\<open>undefined\<close> or,
  after \<^verbatim>\<open>this.tabs++\<close>, \<^verbatim>\<open>NaN\<close>.
\<close>

datatype js_number = Undefined | NaN

fun increment :: "js_number \<Rightarrow> js_number" where
  "increment Undefined = NaN"
| "increment NaN = NaN"

text \<open>
  The allocator. The fields of the object: \<^verbatim>\<open>_browser\<close>, \<^verbatim>\<open>_tabs\<close>, \<^verbatim>\<open>_maxtabs\<close>,
  \<^verbatim>\<open>_resolvers\<close> (the queue of resolve functions, each named by the number of the
  \<^verbatim>\<open>getTab\<close> call that made it), \<^verbatim>\<open>_tab\<close> (a promise, named by the tab it resolves to, or
  absent), and in the second variant \<^verbatim>\<open>_tabInUse\<close> and \<^verbatim>\<open>tabs\<close>.
  What is pending in the event loop: \<open>a_thens\<close>, the callbacks chained on tab
  promises, each with the tab it waits for; \<open>a_retries\<close>, the calls
  \<^verbatim>\<open>this._tab.then(() => this.getTab())\<close> of the second variant, each with the tab of
  the promise it is chained on and the request it answers.
  What has happened, which the code does not read: \<open>a_requests\<close> counts the calls of
  \<^verbatim>\<open>getTab\<close>; \<open>a_granted\<close> lists, in order, which request was answered with (the promise
  of) which tab; \<open>a_queued\<close> lists the requests pushed on \<^verbatim>\<open>_resolvers\<close>; \<open>a_released\<close>
  lists the tabs that tasks gave back.
\<close>

record allocator =
  a_browser :: browser
  a_tabs :: int
  a_maxtabs :: int
  a_resolvers :: "nat list"
  a_tab :: "nat option"
  a_tabInUse :: bool
  a_tabs_prop :: js_number
  a_thens :: "(nat \<times> then_callback) list"
  a_retries :: "(nat \<times> nat) list"
  a_requests :: nat
  a_granted :: "(nat \<times> nat) list"
  a_queued :: "nat list"
  a_released :: "nat list"

text \<open>The tabs in use: handed to a request and not given back.\<close>

definition in_use :: "allocator \<Rightarrow> nat list" where
  "in_use a = filter (\<lambda>t. t \<notin> set (a_released a)) (map snd (a_granted a))"

definition grant :: "nat \<Rightarrow> nat \<Rightarrow> allocator \<Rightarrow> allocator" where
  "grant r t a = a\<lparr>a_granted := a_granted a @ [(r, t)]\<rparr>"

definition enqueue :: "nat \<Rightarrow> allocator \<Rightarrow> allocator" where
  "enqueue r a = a\<lparr>a_resolvers := a_resolvers a @ [r], a_queued := a_queued a @ [r]\<rparr>"

definition empty_allocator :: "browser \<Rightarrow> int \<Rightarrow> allocator" where
  "empty_allocator b maxtabs =
     \<lparr>a_browser = b, a_tabs = 0, a_maxtabs = maxtabs, a_resolvers = [], a_tab = None,
      a_tabInUse = False, a_tabs_prop = Undefined, a_thens = [], a_retries = [],
      a_requests = 0, a_granted = [], a_queued = [], a_released = []\<rparr>"

subsection \<open>The first variant\<close>

text \<open>
  \<^verbatim>\<open>
  _createTab: function()
  {
    this._tabs++;
    let tab = this._browser.addTab("about:blank");
    if (tab.linkedBrowser.outerWindowID)
      return Promise.resolve(tab);
    return new Promise((resolve, reject) => { ... resolve(tab) on "Browser:Init" ... });
  }
  \<close>
  Either way the value is a promise of the new tab, and what is chained on it runs
  later.
\<close>

definition createTab1 :: "allocator \<Rightarrow> nat \<times> allocator" where
  "createTab1 a =
     (case addTab (a_browser a) of
        (tab, b) \<Rightarrow> (tab, a\<lparr>a_tabs := a_tabs a + 1, a_browser := b\<rparr>))"

text \<open>
  \<^verbatim>\<open>
  function TabAllocator(browser, maxtabs)
  {
    this._browser = browser;
    this._tabs = 0;
    this._maxtabs = maxtabs;
    this._resolvers = [];
    let tabToRemove = this._browser.tabs[0];
    this._browser.removeAllTabsBut(tabToRemove);
    this._tab = this._createTab().then(tab =>
    {
      this._browser.removeTab(tabToRemove);
      return tab;
    });
  }
  \<close>
  A window with no tab has no \<^verbatim>\<open>tabs[0]\<close>; the constructor is not modelled there.
\<close>

definition TabAllocator1 :: "browser \<Rightarrow> int \<Rightarrow> allocator option" where
  "TabAllocator1 b maxtabs =
     (case b_tabs b of
        [] \<Rightarrow> None
      | tabToRemove # others \<Rightarrow>
          (case createTab1 (empty_allocator (removeAllTabsBut tabToRemove b) maxtabs) of
             (tab, a) \<Rightarrow> Some (a\<lparr>a_tab := Some tab, a_thens := [(tab, Remove_old tabToRemove)]\<rparr>)))"

text \<open>
  \<^verbatim>\<open>
  getTab: function()
  {
    if (this._tab)
    {
      let tab = this._tab;
      delete this._tab;
      return tab;
    }
    if (this._tabs < this._maxtabs)
      return this._createTab();
    return new Promise((resolve, reject) => this._resolvers.push(resolve));
  }
  \<close>
\<close>

definition getTab1 :: "nat \<Rightarrow> allocator \<Rightarrow> allocator" where
  "getTab1 r a =
     (case a_tab a of
        Some tab \<Rightarrow> grant r tab (a\<lparr>a_tab := None\<rparr>)
      | None \<Rightarrow>
          if a_tabs a < a_maxtabs a then (case createTab1 a of (tab, a') \<Rightarrow> grant r tab a')
          else enqueue r a)"

text \<open>
  \<^verbatim>\<open>
  releaseTab: function(tab)
  {
    if (this._tabs == 1)
    {
      this._tab = this._createTab().then((resultTab) =>
      {
        this.releaseTab(tab);
        return resultTab;
      });
      return;
    }

    this._browser.removeTab(tab);
    this._tabs--;
    if (this._resolvers.length)
    {
      if (this._tab)
      {
        this._resolvers.shift()(this._tab);
        delete this._tab;
      }
      else if (this._tabs < this._maxtabs)
      {
        this._resolvers.shift()(this._createTab());
      }
    }
  }
  \<close>
\<close>

definition releaseTab1 :: "nat \<Rightarrow> allocator \<Rightarrow> allocator" where
  "releaseTab1 tab a =
     (if a_tabs a = 1 then
        (case createTab1 a of
           (new, a') \<Rightarrow> a'\<lparr>a_tab := Some new, a_thens := a_thens a' @ [(new, Release_again tab)]\<rparr>)
      else
        (let a1 = a\<lparr>a_browser := removeTab tab (a_browser a), a_tabs := a_tabs a - 1\<rparr> in
         case a_resolvers a1 of
           [] \<Rightarrow> a1
         | r # rs \<Rightarrow>
             (case a_tab a1 of
                Some kept \<Rightarrow> (grant r kept (a1\<lparr>a_resolvers := rs\<rparr>))\<lparr>a_tab := None\<rparr>
              | None \<Rightarrow>
                  if a_tabs a1 < a_maxtabs a1 then
                    (case createTab1 (a1\<lparr>a_resolvers := rs\<rparr>) of (new, a2) \<Rightarrow> grant r new a2)
                  else a1)))"

text \<open>
  The events of a pool: a task calls \<^verbatim>\<open>getTab\<close>; a task calls \<^verbatim>\<open>releaseTab\<close> on a tab;
  a new tab is ready, so that the callback chained on its promise runs; a chained
  \<^verbatim>\<open>getTab\<close> of the second variant runs for a request. A task gives back only a tab it
  holds, so \<^verbatim>\<open>releaseTab\<close> on a tab that is not in use does not occur.
\<close>

datatype pool_event = Get_tab | Release nat | Tab_ready nat | Retry nat

definition drop_then :: "nat \<Rightarrow> allocator \<Rightarrow> allocator" where
  "drop_then tab a = a\<lparr>a_thens := filter (\<lambda>p. fst p \<noteq> tab) (a_thens a)\<rparr>"

fun pool_step1 :: "pool_event \<Rightarrow> allocator \<Rightarrow> allocator" where
  "pool_step1 Get_tab a = getTab1 (a_requests a) (a\<lparr>a_requests := Suc (a_requests a)\<rparr>)"
| "pool_step1 (Release tab) a =
     (if tab \<in> set (in_use a) then releaseTab1 tab (a\<lparr>a_released := a_released a @ [tab]\<rparr>)
      else a)"
| "pool_step1 (Tab_ready tab) a =
     (case map_of (a_thens a) tab of
        Some (Remove_old old) \<Rightarrow>
          (drop_then tab a)\<lparr>a_browser := removeTab old (a_browser a)\<rparr>
      | Some (Release_again old) \<Rightarrow> releaseTab1 old (drop_then tab a)
      | _ \<Rightarrow> a)"
| "pool_step1 (Retry r) a = a"

fun pool_run1 :: "pool_event list \<Rightarrow> allocator \<Rightarrow> allocator" where
  "pool_run1 [] a = a"
| "pool_run1 (e # es) a = pool_run1 es (pool_step1 e a)"

text \<open>
  The events at which the first allocator runs \<^verbatim>\<open>releaseTab\<close> on a tab: a task gives the
  tab back, or a replacement tab is ready and the callback chained on it calls
  \<^verbatim>\<open>this.releaseTab(tab)\<close> for the tab whose release was deferred.
\<close>

definition runs_releaseTab :: "pool_event \<Rightarrow> nat \<Rightarrow> allocator \<Rightarrow> bool" where
  "runs_releaseTab e t a \<longleftrightarrow>
     (case e of
        Release t' \<Rightarrow> t' = t \<and> t \<in> set (in_use a)
      | Tab_ready n \<Rightarrow> map_of (a_thens a) n = Some (Release_again t)
      | _ \<Rightarrow> False)"

text \<open>
  Pools for concrete runs: the first allocator as its constructor leaves it in a window
  with one tab, with a limit of one tab and of two.
\<close>

definition one_tab_pool :: allocator where
  "one_tab_pool =
     \<lparr>a_browser = \<lparr>b_tabs = [0, 1], b_next = 2\<rparr>, a_tabs = 1, a_maxtabs = 1,
      a_resolvers = [], a_tab = Some 1, a_tabInUse = False, a_tabs_prop = Undefined,
      a_thens = [(1, Remove_old 0)], a_retries = [], a_requests = 0, a_granted = [],
      a_queued = [], a_released = []\<rparr>"

definition two_tab_pool :: allocator where
  "two_tab_pool = one_tab_pool\<lparr>a_maxtabs := 2\<rparr>"

subsection \<open>The second variant\<close>

text \<open>
  \<^verbatim>\<open>
  _createTab: function()
  {
    this.tabs++;
    let tab = this._browser.addTab("about:blank");
    ...
  }
  \<close>
  The counter incremented is \<^verbatim>\<open>this.tabs\<close>, not \<^verbatim>\<open>this._tabs\<close>.
\<close>

definition createTab2 :: "allocator \<Rightarrow> nat \<times> allocator" where
  "createTab2 a =
     (case addTab (a_browser a) of
        (tab, b) \<Rightarrow> (tab, a\<lparr>a_tabs_prop := increment (a_tabs_prop a), a_browser := b\<rparr>))"

text \<open>
  \<^verbatim>\<open>
  function TabAllocator(browser, maxtabs)
  {
    this._browser = browser;
    this._tabs = 0;
    this._maxtabs = maxtabs;
    this._resolvers = [];
    this._tabInUse = false;
    this._tab = this._createTab().then(tab =>
    {
      delete this._tab;
      this._browser.removeAllTabsBut(tab);
      return tab;
    });
  }
  \<close>
\<close>

definition TabAllocator2 :: "browser \<Rightarrow> int \<Rightarrow> allocator" where
  "TabAllocator2 b maxtabs =
     (case createTab2 (empty_allocator b maxtabs) of
        (tab, a) \<Rightarrow> a\<lparr>a_tab := Some tab, a_thens := [(tab, Bootstrap)]\<rparr>)"

text \<open>
  \<^verbatim>\<open>
  getTab: function()
  {
    if (this._tab)
    {
      if (!this._tabInUse)
      {
        this._tabInUse = true;
        return this._tab;
      }
      return this._tab.then(() => this.getTab());
    }
    if (this._tabs < this._maxtabs)
      return this._createTab();
    return new Promise((resolve, reject) => this._resolvers.push(resolve));
  }
  \<close>
\<close>

definition getTab2 :: "nat \<Rightarrow> allocator \<Rightarrow> allocator" where
  "getTab2 r a =
     (case a_tab a of
        Some tab \<Rightarrow>
          if \<not> a_tabInUse a then grant r tab (a\<lparr>a_tabInUse := True\<rparr>)
          else a\<lparr>a_retries := a_retries a @ [(tab, r)]\<rparr>
      | None \<Rightarrow>
          if a_tabs a < a_maxtabs a then (case createTab2 a of (tab, a') \<Rightarrow> grant r tab a')
          else enqueue r a)"

text \<open>
  \<^verbatim>\<open>
  releaseTab: function(tab)
  {
    if (!this._resolvers.length && this._tabs == 1)
    {
      this._tabInUse = false;
      this._tab = this._createTab().then((resultTab) =>
      {
        delete this._tab;
        this.releaseTab(tab);
        return resultTab;
      });
      return;
    }
    this._browser.removeTab(tab);

    if (this._resolvers.length)
      this._resolvers.shift()(this._createTab());
    else
      this._tabs--;
  }
  \<close>
\<close>

definition releaseTab2 :: "nat \<Rightarrow> allocator \<Rightarrow> allocator" where
  "releaseTab2 tab a =
     (if a_resolvers a = [] \<and> a_tabs a = 1 then
        (case createTab2 (a\<lparr>a_tabInUse := False\<rparr>) of
           (new, a') \<Rightarrow> a'\<lparr>a_tab := Some new, a_thens := a_thens a' @ [(new, Replace tab)]\<rparr>)
      else
        (let a1 = a\<lparr>a_browser := removeTab tab (a_browser a)\<rparr> in
         case a_resolvers a1 of
           r # rs \<Rightarrow> (case createTab2 (a1\<lparr>a_resolvers := rs\<rparr>) of (new, a2) \<Rightarrow> grant r new a2)
         | [] \<Rightarrow> a1\<lparr>a_tabs := a_tabs a1 - 1\<rparr>))"

text \<open>
  A chained \<^verbatim>\<open>getTab\<close> runs once the promise it is chained on is resolved, that is
  after the callback of that promise has run.
\<close>

fun pool_step2 :: "pool_event \<Rightarrow> allocator \<Rightarrow> allocator" where
  "pool_step2 Get_tab a = getTab2 (a_requests a) (a\<lparr>a_requests := Suc (a_requests a)\<rparr>)"
| "pool_step2 (Release tab) a =
     (if tab \<in> set (in_use a) then releaseTab2 tab (a\<lparr>a_released := a_released a @ [tab]\<rparr>)
      else a)"
| "pool_step2 (Tab_ready tab) a =
     (case map_of (a_thens a) tab of
        Some Bootstrap \<Rightarrow>
          (drop_then tab a)\<lparr>a_tab := None, a_browser := removeAllTabsBut tab (a_browser a)\<rparr>
      | Some (Replace old) \<Rightarrow> releaseTab2 old ((drop_then tab a)\<lparr>a_tab := None\<rparr>)
      | _ \<Rightarrow> a)"
| "pool_step2 (Retry r) a =
     (case filter (\<lambda>p. snd p = r) (a_retries a) of
        [] \<Rightarrow> a
      | (tab, r') # others \<Rightarrow>
          if map_of (a_thens a) tab = None then
            getTab2 r (a\<lparr>a_retries := filter (\<lambda>p. snd p \<noteq> r) (a_retries a)\<rparr>)
          else a)"

fun pool_run2 :: "pool_event list \<Rightarrow> allocator \<Rightarrow> allocator" where
  "pool_run2 [] a = a"
| "pool_run2 (e # es) a = pool_run2 es (pool_step2 e a)"

subsection \<open>What holds of every pool of the first variant\<close>

text \<open>
  The queue discipline: the requests that were queued and have been answered, in the
  order of their answers, followed by the requests still waiting, are the requests in
  the order they were queued; and that order is the order of their \<^verbatim>\<open>getTab\<close> calls.
\<close>

definition queue_inv :: "allocator \<Rightarrow> bool" where
  "queue_inv a \<longleftrightarrow>
     filter (\<lambda>r. r \<in> set (a_queued a)) (map fst (a_granted a)) @ a_resolvers a = a_queued a \<and>
     (\<forall>r \<in> set (a_queued a). r < a_requests a) \<and>
     (\<forall>p \<in> set (a_granted a). fst p < a_requests a) \<and>
     sorted_wrt (<) (a_queued a)"

text \<open>
  While a request waits, the counter \<^verbatim>\<open>_tabs\<close> is not below \<^verbatim>\<open>_maxtabs\<close>, and it is
  above it when the spare tab \<^verbatim>\<open>_tab\<close> is set.
\<close>

definition room_inv :: "allocator \<Rightarrow> bool" where
  "room_inv a \<longleftrightarrow>
     (a_resolvers a \<noteq> [] \<longrightarrow>
        a_maxtabs a \<le> a_tabs a \<and> (a_tab a \<noteq> None \<longrightarrow> a_maxtabs a < a_tabs a))"

text \<open>
  The order of answers when it follows the order of calls: the requests answered so
  far were answered in the order of their calls, and every request still waiting
  called later than all of them.
\<close>

definition order_inv :: "allocator \<Rightarrow> bool" where
  "order_inv a \<longleftrightarrow>
     sorted_wrt (<) (map fst (a_granted a) @ a_resolvers a) \<and>
     (\<forall>r \<in> set (map fst (a_granted a) @ a_resolvers a). r < a_requests a)"

text \<open>
  The tabs the first variant has to account for besides those in use: the spare tab
  \<^verbatim>\<open>_tab\<close>; the tabs whose release is deferred until a replacement is ready; and the
  tab the browser had at the start, until the first new tab is ready.
\<close>

definition spare :: "allocator \<Rightarrow> nat list" where
  "spare a = (case a_tab a of None \<Rightarrow> [] | Some t \<Rightarrow> [t])"

definition deferred :: "allocator \<Rightarrow> nat list" where
  "deferred a = concat (map (\<lambda>p. case snd p of Release_again old \<Rightarrow> [old] | _ \<Rightarrow> []) (a_thens a))"

definition olds :: "allocator \<Rightarrow> nat list" where
  "olds a = concat (map (\<lambda>p. case snd p of Remove_old old \<Rightarrow> [old] | _ \<Rightarrow> []) (a_thens a))"

text \<open>
  What holds of every pool of the first variant between two events, and (with the tab
  being released as \<open>ex\<close>) at the call of \<^verbatim>\<open>releaseTab\<close>: \<^verbatim>\<open>_tabs\<close> counts the tabs in
  use, the spare tab, the deferred ones and the one being released; these tabs and the
  old one are different tabs, all open in the browser.
\<close>

definition pool1_inv :: "nat list \<Rightarrow> allocator \<Rightarrow> bool" where
  "pool1_inv ex a \<longleftrightarrow>
     a_tabs a = int (length (in_use a) + length (spare a) + length (deferred a) + length ex) \<and>
     1 \<le> a_tabs a \<and>
     distinct (in_use a @ spare a @ deferred a @ ex @ olds a) \<and>
     set (in_use a @ spare a @ deferred a @ ex @ olds a) \<subseteq> set (b_tabs (a_browser a)) \<and>
     (\<forall>t \<in> set (b_tabs (a_browser a)). t < b_next (a_browser a)) \<and>
     (a_tab a \<noteq> None \<longrightarrow> in_use a = []) \<and>
     (\<forall>p \<in> set (a_granted a). snd p < b_next (a_browser a)) \<and>
     (\<forall>t \<in> set (spare a). t \<notin> snd ` set (a_granted a)) \<and>
     set (a_released a) \<subseteq> snd ` set (a_granted a) \<and>
     distinct (map fst (a_thens a)) \<and>
     (\<forall>p \<in> set (a_thens a). fst p < b_next (a_browser a)) \<and>
     int (length (in_use a)) \<le> max (a_maxtabs a) 1"

subsection \<open>What holds of every pool of the second variant\<close>

text \<open>
  The second \<^verbatim>\<open>_createTab\<close> increments \<^verbatim>\<open>this.tabs\<close>, a property that nothing reads;
  \<^verbatim>\<open>_tabs\<close> starts at 0 and is only ever decremented. With a limit of at least one tab
  the test \<^verbatim>\<open>_tabs < _maxtabs\<close> of \<^verbatim>\<open>getTab\<close> therefore always succeeds and no request is
  ever queued.
\<close>

definition counter_inv :: "int \<Rightarrow> allocator \<Rightarrow> bool" where
  "counter_inv m a \<longleftrightarrow> a_tabs a \<le> 0 \<and> a_maxtabs a = m \<and> a_resolvers a = []"

chapter \<open>The properties\<close>

section \<open>Action.Asynchronous_Action.prototype.go\<close>

lemma go_sub_state: "a_state (fst (fst (go_sub P a p))) = a_state a"
  by (simp add: go_sub_def split: action_class.splits prod.splits sum.splits)

lemma go_Ready_state: "a_state a = Ready \<Longrightarrow> a_state (fst (fst (go P fin cat a p))) = Running"
proof -
  assume r: "a_state a = Ready"
  obtain ap r' where g: "go_sub P (a\<lparr>finally_f := fin, catch_f := cat, a_state := Running\<rparr>) p = (ap, r')"
    by (cases "go_sub P (a\<lparr>finally_f := fin, catch_f := cat, a_state := Running\<rparr>) p")
  have "a_state (fst ap) = Running"
    using go_sub_state [of P "a\<lparr>finally_f := fin, catch_f := cat, a_state := Running\<rparr>" p] g by simp
  then show ?thesis using r g by (simp add: go_def)
qed

lemma go_outcome_iff: "snd (go P fin cat a p) = Go_Error \<longleftrightarrow> a_state a \<noteq> Ready"
  by (simp add: go_def split: prod.splits)

lemma go_keeps_not_Ready:
  "a_state a \<noteq> Ready \<Longrightarrow> go P fin cat a p = ((a, p), Go_Error)"
  by (simp add: go_def)

lemma call_method_not_Ready:
  "a_state (fst (fst s)) \<noteq> Ready \<Longrightarrow>
   a_state (fst (fst (call_method P m s))) \<noteq> Ready \<and>
   filter started (snd (call_method P m s)) = filter started (snd s)"
  by (cases m; cases s; cases "fst s")
     (auto simp: go_keeps_not_Ready end_well_def end_badly_def)

lemma call_methods_not_Ready:
  "a_state (fst (fst s)) \<noteq> Ready \<Longrightarrow>
   filter started (snd (call_methods P ms s)) = filter started (snd s)"
proof (induction ms arbitrary: s)
  case Nil
  then show ?case by simp
next
  case (Cons m ms)
  from call_method_not_Ready [OF Cons.prems, of P m]
  have "a_state (fst (fst (call_method P m s))) \<noteq> Ready"
    and "filter started (snd (call_method P m s)) = filter started (snd s)"
    by simp_all
  with Cons.IH [of "call_method P m s"] show ?case by simp
qed

lemma call_methods_started_count:
  "length (filter started (snd (call_methods P ms ((a, p), os)))) \<le>
   length (filter started os) + (if a_state a = Ready then 1 else 0)"
proof (induction ms arbitrary: a p os)
  case Nil
  then show ?case by simp
next
  case (Cons m ms)
  show ?case
  proof (cases m)
    case (Call_go fin cat)
    show ?thesis
    proof (cases "a_state a = Ready")
      case True
      obtain a' p' r where g: "go P fin cat a p = ((a', p'), r)"
        by (cases "go P fin cat a p") auto
      have "a_state a' = Running"
        using go_Ready_state [OF True, of P fin cat p] g by simp
      then have nr: "a_state (fst (fst ((a', p'), os @ [r]))) \<noteq> Ready" by simp
      have "filter started (snd (call_methods P ms ((a', p'), os @ [r]))) = filter started (os @ [r])"
        using call_methods_not_Ready [OF nr, of P ms] by simp
      then show ?thesis using Call_go g True by simp
    next
      case False
      then show ?thesis
        using Call_go Cons.IH [of a p "os @ [Go_Error]"] by (simp add: go_keeps_not_Ready)
    qed
  next
    case Call_end_well
    then show ?thesis
      using Cons.IH [of "fst (end_well a)" p os] by (simp add: end_well_def)
  next
    case Call_end_badly
    then show ?thesis
      using Cons.IH [of "fst (end_badly a)" p os] by (simp add: end_badly_def)
  qed
qed

lemma call_methods_started_once:
  "length (filter started (snd (call_methods P ms ((a, p), [])))) \<le> 1"
  using call_methods_started_count [of P ms a p "[]"] by (simp split: if_splits)

text \<open>
  Claim C10. \<^verbatim>\<open>go\<close> throws its Error exactly when the action is not in state Ready.
  When the action is Ready, \<^verbatim>\<open>go\<close> stores the two functions, sets the state to Running
  and only then runs the subprogram \<^verbatim>\<open>_go\<close> on that action, so the state is Running
  when \<^verbatim>\<open>go\<close> is left, whether or not the subprogram threw; a second \<^verbatim>\<open>go\<close> on the
  action then throws the Error; and in any sequence of calls of \<^verbatim>\<open>go\<close>, \<^verbatim>\<open>end_well\<close>
  and \<^verbatim>\<open>end_badly\<close> on one action the subprogram is started at most once.
\<close>

theorem go_throws_iff_not_Ready:
  "(snd (go P fin cat a p) = Go_Error \<longleftrightarrow> a_state a \<noteq> Ready) \<and>
   (a_state a = Ready \<longrightarrow>
      go P fin cat a p =
        (case go_sub P (a\<lparr>finally_f := fin, catch_f := cat, a_state := Running\<rparr>) p of
           (ap, r) \<Rightarrow> (ap, Subprogram_Started r)) \<and>
      a_state (fst (fst (go P fin cat a p))) = Running \<and>
      snd (go P fin' cat' (fst (fst (go P fin cat a p))) (snd (fst (go P fin cat a p)))) = Go_Error) \<and>
   length (filter started (snd (call_methods P ms ((a, p), [])))) \<le> 1"
proof -
  have "a_state a = Ready \<Longrightarrow>
      snd (go P fin' cat' (fst (fst (go P fin cat a p))) (snd (fst (go P fin cat a p)))) = Go_Error"
    using go_Ready_state [of a P fin cat p] by (simp add: go_outcome_iff)
  then show ?thesis
    using go_outcome_iff [of P fin cat a p] go_Ready_state [of a P fin cat p]
      call_methods_started_once [of P ms a p]
    by (auto simp: go_def)
qed

theorem go_throws_iff_not_Ready_witness:
  "a_state (Defer (Some 7)) = Ready \<and>
   snd (go counting_platform (Some 1) None (Defer (Some 7)) 0) = Subprogram_Started None \<and>
   a_state (fst (fst (go counting_platform (Some 1) None (Defer (Some 7)) 0))) = Running \<and>
   snd (go counting_platform None None
          (fst (fst (go counting_platform (Some 1) None (Defer (Some 7)) 0)))
          (snd (fst (go counting_platform (Some 1) None (Defer (Some 7)) 0)))) = Go_Error \<and>
   length (filter started (snd (call_methods counting_platform
      [Call_go (Some 1) None, Call_end_well, Call_go None None]
      ((Defer (Some 7), 0), [])))) \<le> 1"
  using go_throws_iff_not_Ready [of counting_platform "Some 1" None "Defer (Some 7)" 0 None None
      "[Call_go (Some 1) None, Call_end_well, Call_go None None]"]
  by (simp add: Defer_def Asynchronous_Action_init_def go_def go_sub_def counting_platform_def)

section \<open>gatherPageInfo\<close>

lemma gather_screenshot_fields:
  "headers (fst (gather_screenshot w el r)) = headers r \<and>
   source (fst (gather_screenshot w el r)) = source r \<and>
   error (fst (gather_screenshot w el r)) = error r"
  by (simp add: gather_screenshot_def split: option.splits sum.splits)

lemma gather_source_fields:
  "headers (fst (gather_source w r)) = headers r \<and>
   screenshot (fst (gather_source w r)) = screenshot r \<and>
   error (fst (gather_source w r)) = error r"
  by (simp add: gather_source_def split: option.splits sum.splits)

lemma gather_source_done:
  "snd (gather_source w r) = None \<Longrightarrow> source (fst (gather_source w r)) \<noteq> None"
  by (simp add: gather_source_def split: option.splits sum.splits)

lemma gather_try_error: "error (fst (gather_try w el r)) = error r"
proof (cases "gather_screenshot w el r")
  case (Pair r' x)
  then have "error r' = error r"
    using gather_screenshot_fields [of w el r] by simp
  then show ?thesis
    using Pair gather_source_fields [of w r']
    by (cases x) (simp_all add: gather_try_def)
qed

lemma gather_try_done:
  "snd (gather_try w el r) = None \<Longrightarrow> source (fst (gather_try w el r)) \<noteq> None"
proof (cases "gather_screenshot w el r")
  case (Pair r' x)
  assume "snd (gather_try w el r) = None"
  then show ?thesis
    using Pair gather_source_done [of w r']
    by (cases x) (simp_all add: gather_try_def)
qed

text \<open>
  Claim C9. \<^verbatim>\<open>gatherPageInfo\<close> returns an object for every window and no exception
  leaves it. Without a \<^verbatim>\<open>documentElement\<close> the object is empty: no screenshot, no
  source, no error. When a call inside the \<^verbatim>\<open>try\<close> block throws (capturing the
  screenshot or serializing the source), the object that is returned has the error
  field "Cannot gather page info" and the exception went to \<^verbatim>\<open>reportException\<close>.
  When nothing throws, the object has a source and no error field.
\<close>

theorem gatherPageInfo_total:
  "(\<exists>r reported. gatherPageInfo wnd = Normal (r, reported)) \<and>
   (documentElement wnd = None \<longrightarrow> gatherPageInfo wnd = Normal (empty_page_info, [])) \<and>
   (\<forall>el e. documentElement wnd = Some el \<and> snd (gather_try wnd el empty_page_info) = Some e \<longrightarrow>
      (\<exists>r. gatherPageInfo wnd = Normal (r, [e]) \<and> error r = Some ''Cannot gather page info'')) \<and>
   (\<forall>el. documentElement wnd = Some el \<and> snd (gather_try wnd el empty_page_info) = None \<longrightarrow>
      (\<exists>r. gatherPageInfo wnd = Normal (r, []) \<and> error r = None \<and> source r \<noteq> None))"
proof -
  have a: "\<exists>r reported. gatherPageInfo wnd = Normal (r, reported)"
    by (simp add: gatherPageInfo_def split: option.splits prod.splits)
  have b: "documentElement wnd = None \<longrightarrow> gatherPageInfo wnd = Normal (empty_page_info, [])"
    by (simp add: gatherPageInfo_def)
  have c: "\<exists>r. gatherPageInfo wnd = Normal (r, [e]) \<and> error r = Some ''Cannot gather page info''"
    if "documentElement wnd = Some el" "snd (gather_try wnd el empty_page_info) = Some e" for el e
    using that by (cases "gather_try wnd el empty_page_info") (simp add: gatherPageInfo_def)
  have d: "\<exists>r. gatherPageInfo wnd = Normal (r, []) \<and> error r = None \<and> source r \<noteq> None"
    if "documentElement wnd = Some el" "snd (gather_try wnd el empty_page_info) = None" for el
    using that gather_try_error [of wnd el empty_page_info] gather_try_done [of wnd el empty_page_info]
    by (cases "gather_try wnd el empty_page_info") (simp add: gatherPageInfo_def empty_page_info_def)
  from a b c d show ?thesis by blast
qed

theorem gatherPageInfo_total_witness:
  "documentElement (good_window\<lparr>documentElement := None\<rparr>) = None \<and>
   gatherPageInfo (good_window\<lparr>documentElement := None\<rparr>) = Normal (empty_page_info, []) \<and>
   snd (gather_try broken_window \<lparr>scrollWidth = 800, scrollHeight = 600\<rparr> empty_page_info)
     = Some (Exn ''NS_ERROR_FAILURE'') \<and>
   gatherPageInfo broken_window =
     Normal (\<lparr>headers = None, screenshot = Some ''data:image/jpeg;base64,AAAA'', source = None,
              error = Some ''Cannot gather page info''\<rparr>, [Exn ''NS_ERROR_FAILURE'']) \<and>
   gatherPageInfo good_window =
     Normal (\<lparr>headers = None, screenshot = Some ''data:image/jpeg;base64,AAAA'',
              source = Some ''<html/>'', error = None\<rparr>, [])"
  using gatherPageInfo_total [of "good_window\<lparr>documentElement := None\<rparr>"]
    gatherPageInfo_total [of broken_window] gatherPageInfo_total [of good_window]
  by (simp add: gatherPageInfo_def gather_try_def gather_screenshot_def gather_source_def
      good_window_def broken_window_def empty_page_info_def)

section \<open>PageInfoListener\<close>

lemma wf_new: "listener_wf (PageInfoListener t)"
  by (simp add: listener_wf_def PageInfoListener_def)

lemma wf_setter:
  "listener_wf L \<Longrightarrow> pageInfoSetters L k = Some c \<Longrightarrow> \<exists>r. c = OnDone k r \<and> timers L r = Some c"
  unfolding listener_wf_def by blast

lemma wf_timer:
  "listener_wf L \<Longrightarrow> timers L r = Some c \<Longrightarrow>
   (\<exists>k. c = OnDone k r) \<and> promises L r = Some Pending \<and> r < registrations L"
  unfolding listener_wf_def by blast

lemma wf_fresh: "listener_wf L \<Longrightarrow> timers L (registrations L) = None"
  using wf_timer [of L "registrations L"] by (cases "timers L (registrations L)") auto

lemma expect_fields:
  "pageInfoSetters (snd (expect k L)) = (pageInfoSetters L)(k \<mapsto> OnDone k (registrations L))"
  "timers (snd (expect k L)) = (timers L)(registrations L \<mapsto> OnDone k (registrations L))"
  "promises (snd (expect k L)) = (promises L)(registrations L \<mapsto> Pending)"
  "registrations (snd (expect k L)) = Suc (registrations L)"
  "fst (expect k L) = registrations L"
  by (simp_all add: expect_def Let_def)

lemma wf_expect:
  assumes wf: "listener_wf L"
  shows "listener_wf (snd (expect k L))"
  unfolding listener_wf_def expect_fields
proof (rule conjI; intro allI impI)
  fix k' c
  assume "((pageInfoSetters L)(k \<mapsto> OnDone k (registrations L))) k' = Some c"
  then consider "k' = k" "c = OnDone k (registrations L)" | "k' \<noteq> k" "pageInfoSetters L k' = Some c"
    by (auto split: if_splits)
  then show "\<exists>r. c = OnDone k' r \<and> ((timers L)(registrations L \<mapsto> OnDone k (registrations L))) r = Some c"
  proof cases
    case 1
    then show ?thesis by auto
  next
    case 2
    then obtain r where r: "c = OnDone k' r" "timers L r = Some c"
      using wf_setter [OF wf] by blast
    then have "r \<noteq> registrations L" using wf_fresh [OF wf] by auto
    then show ?thesis using r by auto
  qed
next
  fix r c
  assume "((timers L)(registrations L \<mapsto> OnDone k (registrations L))) r = Some c"
  then consider "r = registrations L" "c = OnDone k (registrations L)" | "r \<noteq> registrations L" "timers L r = Some c"
    by (auto split: if_splits)
  then show "(\<exists>k'. c = OnDone k' r) \<and> ((promises L)(registrations L \<mapsto> Pending)) r = Some Pending \<and>
      r < Suc (registrations L)"
  proof cases
    case 1
    then show ?thesis by auto
  next
    case 2
    then show ?thesis using wf_timer [OF wf, of r c] by auto
  qed
qed

lemma onDone_fields:
  "pageInfoSetters (onDone (OnDone k r) v L) = (pageInfoSetters L)(k := None)"
  "timers (onDone (OnDone k r) v L) = (timers L)(r := None)"
  "promises (onDone (OnDone k r) v L) = resolve r v (promises L)"
  "registrations (onDone (OnDone k r) v L) = registrations L"
  by simp_all

lemma resolve_other: "r' \<noteq> r \<Longrightarrow> resolve r v ps r' = ps r'"
  by (simp add: resolve_def split: option.splits promise_state.splits)

lemma resolve_pending: "ps r = Some Pending \<Longrightarrow> resolve r v ps r = Some (Fulfilled v)"
  by (simp add: resolve_def)

lemma wf_onDone:
  assumes wf: "listener_wf L" and own: "timers L r = Some (OnDone k r) \<or> timers L r = None"
  shows "listener_wf (onDone (OnDone k r) v L)"
  unfolding listener_wf_def onDone_fields
proof (rule conjI; intro allI impI)
  fix k' c
  assume "((pageInfoSetters L)(k := None)) k' = Some c"
  then have k': "k' \<noteq> k" "pageInfoSetters L k' = Some c" by (auto split: if_splits)
  then obtain r' where r': "c = OnDone k' r'" "timers L r' = Some c"
    using wf_setter [OF wf] by blast
  then have "r' \<noteq> r" using own k' by auto
  then show "\<exists>r'. c = OnDone k' r' \<and> ((timers L)(r := None)) r' = Some c"
    using r' by auto
next
  fix r' c
  assume "((timers L)(r := None)) r' = Some c"
  then have "r' \<noteq> r" "timers L r' = Some c" by (auto split: if_splits)
  then show "(\<exists>k'. c = OnDone k' r') \<and> resolve r v (promises L) r' = Some Pending \<and> r' < registrations L"
    using wf_timer [OF wf, of r' c] by (simp add: resolve_other)
qed

lemma wf_setPageInfo: "listener_wf L \<Longrightarrow> listener_wf (setPageInfo k v L)"
proof -
  assume wf: "listener_wf L"
  show ?thesis
  proof (cases "pageInfoSetters L k")
    case None
    then show ?thesis using wf by (simp add: setPageInfo_def)
  next
    case (Some c)
    then obtain r where "c = OnDone k r" "timers L r = Some c"
      using wf_setter [OF wf] by blast
    then show ?thesis using Some wf_onDone [OF wf, of r k v] by (simp add: setPageInfo_def)
  qed
qed

lemma timer_fires_wf_eq:
  "listener_wf L \<Longrightarrow> timers L r = Some c \<Longrightarrow> c = OnDone k r \<Longrightarrow>
   timer_fires r L = onDone (OnDone k r) timeout_info L"
  by (simp add: timer_fires_def)

lemma wf_timer_fires: "listener_wf L \<Longrightarrow> listener_wf (timer_fires r L)"
proof -
  assume wf: "listener_wf L"
  show ?thesis
  proof (cases "timers L r")
    case None
    then show ?thesis using wf by (simp add: timer_fires_def)
  next
    case (Some c)
    then obtain k where k: "c = OnDone k r" using wf_timer [OF wf] by blast
    then show ?thesis
      using Some wf_onDone [OF wf, of r k timeout_info] timer_fires_wf_eq [OF wf Some k] by simp
  qed
qed

lemma wf_step: "listener_wf L \<Longrightarrow> listener_wf (listener_step e L)"
  by (cases e) (simp_all add: wf_expect wf_setPageInfo wf_timer_fires)

lemma wf_run: "listener_wf L \<Longrightarrow> listener_wf (listener_run es L)"
  by (induction es arbitrary: L) (simp_all add: wf_step)

lemma wf_reachable: "listener_wf (listener_run es (PageInfoListener t))"
  by (simp add: wf_run wf_new)

lemma setPageInfo_unregistered:
  "pageInfoSetters L k = None \<Longrightarrow> setPageInfo k v L = L"
  by (simp add: setPageInfo_def)

lemma setPageInfo_registered:
  assumes wf: "listener_wf L" and reg: "pageInfoSetters L k = Some c"
  shows "\<exists>r. c = OnDone k r \<and> promises L r = Some Pending \<and>
           promises (setPageInfo k v L) r = Some (Fulfilled v) \<and>
           timers (setPageInfo k v L) r = None \<and>
           pageInfoSetters (setPageInfo k v L) k = None"
proof -
  obtain r where r: "c = OnDone k r" "timers L r = Some c"
    using wf_setter [OF wf reg] by blast
  then have p: "promises L r = Some Pending" using wf_timer [OF wf, of r c] by simp
  show ?thesis using r p reg by (simp add: setPageInfo_def resolve_pending)
qed

lemma setPageInfo_clears: "listener_wf L \<Longrightarrow> pageInfoSetters (setPageInfo k v L) k = None"
proof (cases "pageInfoSetters L k")
  case None
  then show ?thesis by (simp add: setPageInfo_def)
next
  case (Some c)
  assume "listener_wf L"
  then show ?thesis using setPageInfo_registered [of L k c v] Some by blast
qed

lemma timer_fires_clears:
  assumes wf: "listener_wf L" and reg: "pageInfoSetters L k = Some (OnDone k r)"
  shows "pageInfoSetters (timer_fires r L) k = None \<and>
         promises (timer_fires r L) r = Some (Fulfilled timeout_info)"
proof -
  have t: "timers L r = Some (OnDone k r)" using wf_setter [OF wf reg] by auto
  then have "promises L r = Some Pending" using wf_timer [OF wf t] by simp
  then show ?thesis using t by (simp add: timer_fires_def resolve_pending)
qed

text \<open>
  Claim C4. In every state the listener can reach, \<^verbatim>\<open>setPageInfo\<close> for a key that has
  no registration changes nothing. For a key that has one, it fulfils the promise of
  that registration, which was pending, with the payload given, and removes the key from
  the map. A second signal for the key is then without effect, and so is a signal that
  comes after the timer of the registration has fired. No call throws: the operations
  have no exception to raise.
\<close>

theorem setPageInfo_signal:
  "(pageInfoSetters (listener_run es (PageInfoListener t)) k = None \<longrightarrow>
      setPageInfo k v (listener_run es (PageInfoListener t)) = listener_run es (PageInfoListener t)) \<and>
   (\<forall>c. pageInfoSetters (listener_run es (PageInfoListener t)) k = Some c \<longrightarrow>
      (\<exists>r. c = OnDone k r \<and>
         promises (listener_run es (PageInfoListener t)) r = Some Pending \<and>
         promises (setPageInfo k v (listener_run es (PageInfoListener t))) r = Some (Fulfilled v) \<and>
         pageInfoSetters (setPageInfo k v (listener_run es (PageInfoListener t))) k = None \<and>
         setPageInfo k v' (timer_fires r (listener_run es (PageInfoListener t)))
           = timer_fires r (listener_run es (PageInfoListener t)))) \<and>
   setPageInfo k v' (setPageInfo k v (listener_run es (PageInfoListener t)))
     = setPageInfo k v (listener_run es (PageInfoListener t))"
proof -
  let ?L = "listener_run es (PageInfoListener t)"
  have wf: "listener_wf ?L" by (rule wf_reachable)
  have a: "pageInfoSetters ?L k = None \<longrightarrow> setPageInfo k v ?L = ?L"
    by (simp add: setPageInfo_unregistered)
  have b: "\<exists>r. c = OnDone k r \<and> promises ?L r = Some Pending \<and>
         promises (setPageInfo k v ?L) r = Some (Fulfilled v) \<and>
         pageInfoSetters (setPageInfo k v ?L) k = None \<and>
         setPageInfo k v' (timer_fires r ?L) = timer_fires r ?L"
    if reg: "pageInfoSetters ?L k = Some c" for c
  proof -
    obtain r where r: "c = OnDone k r" "promises ?L r = Some Pending"
      "promises (setPageInfo k v ?L) r = Some (Fulfilled v)"
      "pageInfoSetters (setPageInfo k v ?L) k = None"
      using setPageInfo_registered [OF wf reg, of v] by blast
    have "pageInfoSetters (timer_fires r ?L) k = None"
      using timer_fires_clears [OF wf, of k r] reg r by simp
    then have "setPageInfo k v' (timer_fires r ?L) = timer_fires r ?L"
      by (rule setPageInfo_unregistered)
    with r show ?thesis by blast
  qed
  have c: "setPageInfo k v' (setPageInfo k v ?L) = setPageInfo k v ?L"
    using setPageInfo_clears [OF wf, of k v] by (rule setPageInfo_unregistered)
  from a b c show ?thesis by blast
qed


lemma await_step:
  assumes wf: "listener_wf L" and t: "timers L r = Some (OnDone k r)"
    and e: "\<not> signals k e" "\<not> fires r e"
  shows "timers (listener_step e L) r = Some (OnDone k r)"
proof (cases e)
  case (Expect k')
  have "r \<noteq> registrations L" using wf_timer [OF wf t] by simp
  then show ?thesis using Expect t by (simp add: expect_fields)
next
  case (SetPageInfo k' v)
  then have ne: "k' \<noteq> k" using e by simp
  show ?thesis
  proof (cases "pageInfoSetters L k'")
    case None
    then show ?thesis using SetPageInfo t by (simp add: setPageInfo_def)
  next
    case (Some c)
    then obtain r' where r': "c = OnDone k' r'" "timers L r' = Some c"
      using wf_setter [OF wf] by blast
    then have "r' \<noteq> r" using t ne by auto
    then show ?thesis using SetPageInfo Some r' t by (simp add: setPageInfo_def)
  qed
next
  case (TimerFires r')
  then have ne: "r' \<noteq> r" using e by simp
  show ?thesis
  proof (cases "timers L r'")
    case None
    then show ?thesis using TimerFires t by (simp add: timer_fires_def)
  next
    case (Some c)
    then obtain k' where "c = OnDone k' r'" using wf_timer [OF wf] by blast
    then show ?thesis using TimerFires Some ne t by (simp add: timer_fires_def)
  qed
qed

lemma await_run:
  assumes "listener_wf L" "timers L r = Some (OnDone k r)"
    and "\<forall>e \<in> set es. \<not> signals k e \<and> \<not> fires r e"
  shows "listener_wf (listener_run es L) \<and> timers (listener_run es L) r = Some (OnDone k r)"
  using assms
proof (induction es arbitrary: L)
  case Nil
  then show ?case by simp
next
  case (Cons e es)
  have "listener_wf (listener_step e L)" using Cons.prems(1) by (rule wf_step)
  moreover have "timers (listener_step e L) r = Some (OnDone k r)"
    using await_step [OF Cons.prems(1) Cons.prems(2), of e] Cons.prems(3) by simp
  ultimately show ?case using Cons.IH [of "listener_step e L"] Cons.prems(3) by simp
qed

lemma timer_fires_pending:
  assumes wf: "listener_wf L" and t: "timers L r = Some (OnDone k r)"
  shows "promises (timer_fires r L) r = Some (Fulfilled timeout_info) \<and>
         pageInfoSetters (timer_fires r L) k = None \<and> timers (timer_fires r L) r = None"
proof -
  have "promises L r = Some Pending" using wf_timer [OF wf t] by simp
  then show ?thesis using t by (simp add: timer_fires_def resolve_pending)
qed

text \<open>
  Claim C5. Take any reachable listener and register a key with \<^verbatim>\<open>expect\<close>: the promise
  is pending and the key registered. If no signal for the key arrives before the timer
  of the registration fires (whatever else happens meanwhile), then at the firing the
  promise is fulfilled, not rejected, with the object \<^verbatim>\<open>{error: "timeout"}\<close>, and the
  key is no longer registered. The timer's delay is the host's business: its firing is
  an event here.
\<close>

theorem expect_times_out:
  "(\<forall>e \<in> set es'. \<not> signals k e \<and> \<not> fires (fst (expect k (listener_run es (PageInfoListener t)))) e) \<longrightarrow>
   promises (snd (expect k (listener_run es (PageInfoListener t))))
     (fst (expect k (listener_run es (PageInfoListener t)))) = Some Pending \<and>
   pageInfoSetters (snd (expect k (listener_run es (PageInfoListener t)))) k
     = Some (OnDone k (fst (expect k (listener_run es (PageInfoListener t))))) \<and>
   promises (timer_fires (fst (expect k (listener_run es (PageInfoListener t))))
       (listener_run es' (snd (expect k (listener_run es (PageInfoListener t))))))
     (fst (expect k (listener_run es (PageInfoListener t)))) = Some (Fulfilled timeout_info) \<and>
   pageInfoSetters (timer_fires (fst (expect k (listener_run es (PageInfoListener t))))
       (listener_run es' (snd (expect k (listener_run es (PageInfoListener t)))))) k = None"
proof
  let ?L = "listener_run es (PageInfoListener t)"
  let ?r = "fst (expect k ?L)"
  let ?L1 = "snd (expect k ?L)"
  assume quiet: "\<forall>e \<in> set es'. \<not> signals k e \<and> \<not> fires ?r e"
  have wf: "listener_wf ?L" by (rule wf_reachable)
  have wf1: "listener_wf ?L1" using wf by (rule wf_expect)
  have t1: "timers ?L1 ?r = Some (OnDone k ?r)" by (simp add: expect_fields)
  have a: "promises ?L1 ?r = Some Pending" by (simp add: expect_fields)
  have b: "pageInfoSetters ?L1 k = Some (OnDone k ?r)" by (simp add: expect_fields)
  have "listener_wf (listener_run es' ?L1) \<and> timers (listener_run es' ?L1) ?r = Some (OnDone k ?r)"
    using await_run [OF wf1 t1 quiet] .
  then have "promises (timer_fires ?r (listener_run es' ?L1)) ?r = Some (Fulfilled timeout_info) \<and>
         pageInfoSetters (timer_fires ?r (listener_run es' ?L1)) k = None"
    using timer_fires_pending [of "listener_run es' ?L1" ?r k] by blast
  with a b show "promises ?L1 ?r = Some Pending \<and> pageInfoSetters ?L1 k = Some (OnDone k ?r) \<and>
    promises (timer_fires ?r (listener_run es' ?L1)) ?r = Some (Fulfilled timeout_info) \<and>
    pageInfoSetters (timer_fires ?r (listener_run es' ?L1)) k = None" by blast
qed

theorem expect_times_out_witness:
  "fst (expect 7 (listener_run [Expect 4] (PageInfoListener 100))) = 1 \<and>
   promises (timer_fires 1
       (listener_run [Expect 4, SetPageInfo 4 empty_page_info, TimerFires 0, Expect 7]
          (snd (expect 7 (listener_run [Expect 4] (PageInfoListener 100)))))) 1
     = Some (Fulfilled timeout_info) \<and>
   pageInfoSetters (timer_fires 1
       (listener_run [Expect 4, SetPageInfo 4 empty_page_info, TimerFires 0, Expect 7]
          (snd (expect 7 (listener_run [Expect 4] (PageInfoListener 100)))))) 7 = None"
proof -
  have r: "fst (expect 7 (listener_run [Expect 4] (PageInfoListener 100))) = 1"
    by (simp add: expect_def PageInfoListener_def Let_def)
  have q: "\<forall>e \<in> set [Expect 4, SetPageInfo 4 empty_page_info, TimerFires 0, Expect 7].
       \<not> signals 7 e \<and> \<not> fires 1 e" by simp
  show ?thesis
    using expect_times_out [of "[Expect 4, SetPageInfo 4 empty_page_info, TimerFires 0, Expect 7]" 7
        "[Expect 4]" 100] q r
    by simp
qed

theorem setPageInfo_signal_witness:
  "pageInfoSetters (listener_run [Expect 4, Expect 7] (PageInfoListener 100)) 9 = None \<and>
   setPageInfo 9 empty_page_info (listener_run [Expect 4, Expect 7] (PageInfoListener 100))
     = listener_run [Expect 4, Expect 7] (PageInfoListener 100) \<and>
   pageInfoSetters (listener_run [Expect 4, Expect 7] (PageInfoListener 100)) 7 = Some (OnDone 7 1) \<and>
   promises (setPageInfo 7 empty_page_info (listener_run [Expect 4, Expect 7] (PageInfoListener 100))) 1
     = Some (Fulfilled empty_page_info) \<and>
   pageInfoSetters (setPageInfo 7 empty_page_info (listener_run [Expect 4, Expect 7] (PageInfoListener 100))) 7
     = None \<and>
   setPageInfo 7 timeout_info (timer_fires 1 (listener_run [Expect 4, Expect 7] (PageInfoListener 100)))
     = timer_fires 1 (listener_run [Expect 4, Expect 7] (PageInfoListener 100))"
proof -
  have s9: "pageInfoSetters (listener_run [Expect 4, Expect 7] (PageInfoListener 100)) 9 = None"
    by (simp add: expect_def PageInfoListener_def Let_def)
  have s7: "pageInfoSetters (listener_run [Expect 4, Expect 7] (PageInfoListener 100)) 7 = Some (OnDone 7 1)"
    by (simp add: expect_def PageInfoListener_def Let_def)
  show ?thesis
    using setPageInfo_signal [of "[Expect 4, Expect 7]" 100 9 empty_page_info timeout_info]
      setPageInfo_signal [of "[Expect 4, Expect 7]" 100 7 empty_page_info timeout_info] s9 s7
    by simp
qed

section \<open>crawl_url\<close>

lemma releases_append: "releases (xs @ ys) = releases xs @ releases ys"
  by (simp add: releases_def)

lemma releases_simps:
  "releases [] = []"
  "releases (ReleaseTab t # cs) = t # releases cs"
  "releases (New_RequestNotifier w # cs) = releases cs"
  "releases (Listener_expect w # cs) = releases cs"
  "releases (LoadURI u # cs) = releases cs"
  "releases (WaitForLoad t # cs) = releases cs"
  "releases (Report_exception e # cs) = releases cs"
  "releases (Notifier_shutdown # cs) = releases cs"
  by (simp_all add: releases_def)

lemma capture_screenshot2_calls:
  "capture_screenshot2 w r = (r', cs) \<Longrightarrow> releases cs = []"
  by (auto simp: capture_screenshot2_def releases_simps Let_def split: option.splits sum.splits)

lemma try_block1_calls: "releases (t_calls (try_block1 u wid env r)) = []"
  by (simp add: try_block1_def releases_simps Let_def split: option.splits sum.splits)

lemma try_block2_calls: "releases (t_calls (try_block2 u tab wid env r)) = []"
  by (auto simp: try_block2_def releases_simps releases_append Let_def
      dest: capture_screenshot2_calls split: option.splits sum.splits prod.splits)

lemma try_block1_notifier:
  "t_notifier (try_block1 u wid env r) \<longleftrightarrow> new_RequestNotifier env = None"
  by (simp add: try_block1_def Let_def split: option.splits sum.splits)

lemma try_block2_notifier:
  "t_notifier (try_block2 u tab wid env r) \<longleftrightarrow> new_RequestNotifier env = None"
  by (simp add: try_block2_def Let_def split: option.splits sum.splits prod.splits)

lemma finally_block_releases:
  assumes "\<not> t_notifier t \<or> notifier_shutdown env = None" "releases (t_calls t) = []"
  shows "releases (calls (finally_block tab env t)) = [tab] \<and>
         last (calls (finally_block tab env t)) = ReleaseTab tab"
  using assms by (auto simp: finally_block_def releases_append releases_simps)

lemma finally_block_skips:
  assumes "t_notifier t" "notifier_shutdown env = Some e" "releases (t_calls t) = []"
  shows "releases (calls (finally_block tab env t)) = [] \<and>
         final (finally_block tab env t) = Throw e"
  using assms by (simp add: finally_block_def releases_append releases_simps)

lemma crawl_url1_releases:
  "new_RequestNotifier env \<noteq> None \<or> notifier_shutdown env = None \<Longrightarrow>
   releases (calls (crawl_url1 u tab wid env)) = [tab] \<and>
   last (calls (crawl_url1 u tab wid env)) = ReleaseTab tab"
  unfolding crawl_url1_def
  by (rule finally_block_releases) (simp_all add: try_block1_calls try_block1_notifier)

lemma crawl_url2_releases:
  "new_RequestNotifier env \<noteq> None \<or> notifier_shutdown env = None \<Longrightarrow>
   releases (calls (crawl_url2 u tab wid env)) = [tab] \<and>
   last (calls (crawl_url2 u tab wid env)) = ReleaseTab tab"
  unfolding crawl_url2_def
  by (rule finally_block_releases) (simp_all add: try_block2_calls try_block2_notifier)

lemma crawl_url1_skips:
  "new_RequestNotifier env = None \<Longrightarrow> notifier_shutdown env = Some e \<Longrightarrow>
   releases (calls (crawl_url1 u tab wid env)) = [] \<and> final (crawl_url1 u tab wid env) = Throw e"
  unfolding crawl_url1_def
  by (rule finally_block_skips) (simp_all add: try_block1_calls try_block1_notifier)

lemma crawl_url2_skips:
  "new_RequestNotifier env = None \<Longrightarrow> notifier_shutdown env = Some e \<Longrightarrow>
   releases (calls (crawl_url2 u tab wid env)) = [] \<and> final (crawl_url2 u tab wid env) = Throw e"
  unfolding crawl_url2_def
  by (rule finally_block_skips) (simp_all add: try_block2_calls try_block2_notifier)

text \<open>
  Claim C3, as amended. Once a job has its tab, it calls \<^verbatim>\<open>releaseTab\<close> exactly once, on
  that tab and as its last call, however the steps of the \<^verbatim>\<open>try\<close> block end (all of them
  returning, the awaited promise giving the timeout object, or any one of them throwing:
  creating the request notifier, \<^verbatim>\<open>loadURI\<close>, reading the final URL, and in the second
  variant the serializer), provided the clean-up call \<^verbatim>\<open>requestNotifier.shutdown()\<close>,
  which stands before \<^verbatim>\<open>releaseTab\<close> in the \<^verbatim>\<open>finally\<close> block, returns or is not made
  because no notifier was created. When \<^verbatim>\<open>shutdown\<close> throws, \<^verbatim>\<open>releaseTab\<close> is not called
  at all and the job ends with the exception of \<^verbatim>\<open>shutdown\<close>. This holds of both variants
  of \<^verbatim>\<open>crawl_url\<close>.
\<close>

theorem releaseTab_once_unless_shutdown_throws:
  "(new_RequestNotifier env \<noteq> None \<or> notifier_shutdown env = None \<longrightarrow>
      releases (calls (crawl_url1 u tab wid env)) = [tab] \<and>
      last (calls (crawl_url1 u tab wid env)) = ReleaseTab tab \<and>
      releases (calls (crawl_url2 u tab wid env)) = [tab] \<and>
      last (calls (crawl_url2 u tab wid env)) = ReleaseTab tab) \<and>
   (new_RequestNotifier env = None \<and> notifier_shutdown env = Some e \<longrightarrow>
      releases (calls (crawl_url1 u tab wid env)) = [] \<and>
      final (crawl_url1 u tab wid env) = Throw e \<and>
      releases (calls (crawl_url2 u tab wid env)) = [] \<and>
      final (crawl_url2 u tab wid env) = Throw e)"
  using crawl_url1_releases [of env u tab wid] crawl_url2_releases [of env u tab wid]
    crawl_url1_skips [of env e u tab wid] crawl_url2_skips [of env e u tab wid]
  by blast

text \<open>
  Claim C3 as stated fails in both variants. In the first run every step of the \<^verbatim>\<open>try\<close>
  block returns, in the second \<^verbatim>\<open>loadURI\<close> throws; in both \<^verbatim>\<open>shutdown\<close> throws, and
  the job ends without a call of \<^verbatim>\<open>releaseTab\<close>.
\<close>

theorem release_skipped_counterexample:
  "t_thrown (try_block1 ''http://a/'' 17
      (good_env\<lparr>notifier_shutdown := Some (Exn ''NS_ERROR_UNEXPECTED'')\<rparr>) (new_result ''http://a/''))
     = None \<and>
   releases (calls (crawl_url1 ''http://a/'' 3 17
      (good_env\<lparr>notifier_shutdown := Some (Exn ''NS_ERROR_UNEXPECTED'')\<rparr>))) = [] \<and>
   t_thrown (try_block2 ''http://a/'' 3 17
      (failing_env\<lparr>notifier_shutdown := Some (Exn ''NS_ERROR_UNEXPECTED'')\<rparr>) (new_result ''http://a/''))
     = Some (Exn ''NS_ERROR_MALFORMED_URI'') \<and>
   releases (calls (crawl_url2 ''http://a/'' 3 17
      (failing_env\<lparr>notifier_shutdown := Some (Exn ''NS_ERROR_UNEXPECTED'')\<rparr>))) = []"
  by (simp add: crawl_url1_def crawl_url2_def finally_block_def try_block1_def try_block2_def
      good_env_def failing_env_def Let_def releases_simps)

theorem releaseTab_once_unless_shutdown_throws_witness:
  "final (crawl_url1 ''http://a/'' 3 17 good_env) \<noteq> Throw (Exn ''NS_ERROR_MALFORMED_URI'') \<and>
   releases (calls (crawl_url1 ''http://a/'' 3 17 good_env)) = [3] \<and>
   error (local_result (crawl_url1 ''http://a/'' 3 17 timeout_env)) = Some ''timeout'' \<and>
   releases (calls (crawl_url1 ''http://a/'' 3 17 timeout_env)) = [3] \<and>
   final (crawl_url1 ''http://a/'' 3 17 failing_env) = Throw (Exn ''NS_ERROR_MALFORMED_URI'') \<and>
   releases (calls (crawl_url1 ''http://a/'' 3 17 failing_env)) = [3] \<and>
   final (crawl_url2 ''http://a/'' 3 17 (good_env\<lparr>content := broken_window\<rparr>)) = Throw (Exn ''NS_ERROR_FAILURE'') \<and>
   releases (calls (crawl_url2 ''http://a/'' 3 17 (good_env\<lparr>content := broken_window\<rparr>))) = [3] \<and>
   releases (calls (crawl_url1 ''http://a/'' 3 17
      (good_env\<lparr>new_RequestNotifier := Some (Exn ''NS_ERROR_FAILURE''),
                notifier_shutdown := Some (Exn ''NS_ERROR_UNEXPECTED'')\<rparr>))) = [3] \<and>
   releases (calls (crawl_url2 ''http://a/'' 3 17
      (timeout_env\<lparr>notifier_shutdown := Some (Exn ''NS_ERROR_UNEXPECTED'')\<rparr>))) = [] \<and>
   final (crawl_url2 ''http://a/'' 3 17
      (timeout_env\<lparr>notifier_shutdown := Some (Exn ''NS_ERROR_UNEXPECTED'')\<rparr>))
     = Throw (Exn ''NS_ERROR_UNEXPECTED'')"
proof -
  let ?x = "Exn ''NS_ERROR_UNEXPECTED''"
  have s: "notifier_shutdown good_env = None" "notifier_shutdown timeout_env = None"
    "notifier_shutdown failing_env = None" "notifier_shutdown (good_env\<lparr>content := broken_window\<rparr>) = None"
    "new_RequestNotifier (good_env\<lparr>new_RequestNotifier := Some (Exn ''NS_ERROR_FAILURE''),
        notifier_shutdown := Some ?x\<rparr>) \<noteq> None"
    "new_RequestNotifier (timeout_env\<lparr>notifier_shutdown := Some ?x\<rparr>) = None"
    "notifier_shutdown (timeout_env\<lparr>notifier_shutdown := Some ?x\<rparr>) = Some ?x"
    by (simp_all add: good_env_def timeout_env_def failing_env_def)
  have f: "final (crawl_url1 ''http://a/'' 3 17 good_env) \<noteq> Throw (Exn ''NS_ERROR_MALFORMED_URI'')"
    "error (local_result (crawl_url1 ''http://a/'' 3 17 timeout_env)) = Some ''timeout''"
    "final (crawl_url1 ''http://a/'' 3 17 failing_env) = Throw (Exn ''NS_ERROR_MALFORMED_URI'')"
    by (simp_all add: crawl_url1_def finally_block_def try_block1_def good_env_def timeout_env_def
        failing_env_def Let_def timeout_info_def empty_page_info_def Object_assign_def)
  have g: "final (crawl_url2 ''http://a/'' 3 17 (good_env\<lparr>content := broken_window\<rparr>)) = Throw (Exn ''NS_ERROR_FAILURE'')"
    by (simp add: crawl_url2_def finally_block_def try_block2_def good_env_def broken_window_def
        good_window_def capture_screenshot2_def Let_def)
  show ?thesis
    using releaseTab_once_unless_shutdown_throws [of good_env "''http://a/''" 3 17 ?x]
      releaseTab_once_unless_shutdown_throws [of timeout_env "''http://a/''" 3 17 ?x]
      releaseTab_once_unless_shutdown_throws [of failing_env "''http://a/''" 3 17 ?x]
      releaseTab_once_unless_shutdown_throws [of "good_env\<lparr>content := broken_window\<rparr>" "''http://a/''" 3 17 ?x]
      releaseTab_once_unless_shutdown_throws [of "good_env\<lparr>new_RequestNotifier := Some (Exn ''NS_ERROR_FAILURE''),
        notifier_shutdown := Some ?x\<rparr>" "''http://a/''" 3 17 ?x]
      releaseTab_once_unless_shutdown_throws [of "timeout_env\<lparr>notifier_shutdown := Some ?x\<rparr>" "''http://a/''" 3 17 ?x]
      s f g
    by blast
qed

section \<open>crawl_urls\<close>

lemma spawn_loop_eq:
  "spawn_loop us b =
     b\<lparr>running := running b + int (length us),
       pending_tasks := pending_tasks b @
         zip [length (pending_tasks b)..<length (pending_tasks b) + length us] us\<rparr>"
proof (induction us arbitrary: b)
  case Nil
  then show ?case by simp
next
  case (Cons u us)
  have "[k..<k + length (u # us)] = k # [Suc k..<Suc k + length us]" for k
    by (subst upt_conv_Cons) simp_all
  then show ?case by (simp add: Cons.IH)
qed

lemma crawl_urls_eq:
  "crawl_urls urls =
     \<lparr>pending_tasks = zip [0..<length urls] urls, running = int (length urls), sent = [],
      in_flight = [], reported = [], windowCloser_stops = 0, onDone_calls = 0\<rparr>"
  by (simp add: crawl_urls_def spawn_loop_eq)

lemma batch_inv_init: "batch_inv urls (crawl_urls urls)"
  unfolding batch_inv_def crawl_urls_eq
  by (auto simp: in_set_zip)

lemma length_filter_fst:
  "distinct (map fst ps) \<Longrightarrow> (i, u) \<in> set ps \<Longrightarrow>
   Suc (length (filter (\<lambda>t. fst t \<noteq> i) ps)) = length ps"
proof (induction ps)
  case Nil
  then show ?case by simp
next
  case (Cons p ps)
  show ?case
  proof (cases "fst p = i")
    case True
    then have "i \<notin> fst ` set ps" using Cons.prems(1) by auto
    then have "filter (\<lambda>t. fst t \<noteq> i) ps = ps" by (auto simp: filter_id_conv)
    then show ?thesis using True by simp
  next
    case False
    then have "(i, u) \<in> set ps" using Cons.prems(2) by auto
    then show ?thesis using False Cons by simp
  qed
qed

lemma length_removeAll_distinct:
  "distinct xs \<Longrightarrow> j \<in> set xs \<Longrightarrow> Suc (length (removeAll j xs)) = length xs"
  by (induction xs) auto

lemma batch_inv_settle:
  assumes inv: "batch_inv urls b"
  shows "batch_inv urls (batch_step (Task_settles i outcome now) b)"
proof (cases "map_of (pending_tasks b) i")
  case None
  then show ?thesis using inv by simp
next
  case (Some u)
  then have mem: "(i, u) \<in> set (pending_tasks b)" by (rule map_of_SomeD)
  have d: "distinct (map fst (pending_tasks b))" using inv by (simp add: batch_inv_def)
  have len: "Suc (length (filter (\<lambda>t. fst t \<noteq> i) (pending_tasks b))) = length (pending_tasks b)"
    using length_filter_fst [OF d mem] .
  have "fst (i, u) \<notin> fst ` set (sent b)"
    using inv mem unfolding batch_inv_def by blast
  then have fresh: "i \<notin> fst ` set (sent b)" by simp
  have bound: "\<forall>j \<in> set (in_flight b). j < length (sent b)" using inv by (simp add: batch_inv_def)
  have "\<exists>body rep. batch_step (Task_settles i outcome now) b =
       b\<lparr>pending_tasks := filter (\<lambda>t. fst t \<noteq> i) (pending_tasks b),
         reported := rep,
         sent := sent b @ [(i, body)], in_flight := in_flight b @ [length (sent b)]\<rparr>"
  proof (cases outcome)
    case (Normal r)
    then show ?thesis
      using Some by (intro exI [of _ r] exI [of _ "reported b"]) (simp add: send_record_def)
  next
    case (Throw e)
    then show ?thesis
      using Some
      by (intro exI [of _ "failure_record u now e"] exI [of _ "reported b @ [e]"])
         (simp add: send_record_def)
  qed
  then obtain body rep where step:
    "batch_step (Task_settles i outcome now) b =
       b\<lparr>pending_tasks := filter (\<lambda>t. fst t \<noteq> i) (pending_tasks b),
         reported := rep,
         sent := sent b @ [(i, body)], in_flight := in_flight b @ [length (sent b)]\<rparr>"
    by blast
  show ?thesis
    unfolding step batch_inv_def
    using inv len fresh bound
    by (auto simp: batch_inv_def distinct_map_filter less_Suc_eq)
qed

lemma batch_inv_xhr:
  assumes inv: "batch_inv urls b"
  shows "batch_inv urls (batch_step (Xhr_ends j x) b)"
proof (cases "j \<in> set (in_flight b)")
  case False
  then show ?thesis using inv by simp
next
  case True
  have d: "distinct (in_flight b)" using inv by (simp add: batch_inv_def)
  have len: "Suc (length (removeAll j (in_flight b))) = length (in_flight b)"
    using length_removeAll_distinct [OF d True] .
  have "j < length (sent b)" using inv True unfolding batch_inv_def by blast
  then have ne: "urls \<noteq> []" using inv unfolding batch_inv_def by auto
  have run: "running b = int (length (pending_tasks b)) + int (length (in_flight b))"
    using inv by (simp add: batch_inv_def)
  have pos: "running b \<ge> 1" using run len by linarith
  then have zero: "onDone_calls b = 0" "windowCloser_stops b = 0"
    using inv unfolding batch_inv_def by auto
  have run': "running b - 1 = int (length (pending_tasks b)) + int (length (removeAll j (in_flight b)))"
    using run len by linarith
  show ?thesis
    using True inv zero run' ne
    unfolding batch_inv_def
    by (auto simp: taskDone_def Let_def distinct_removeAll)
qed

lemma batch_inv_step: "batch_inv urls b \<Longrightarrow> batch_inv urls (batch_step e b)"
  by (cases e) (simp_all only: batch_inv_settle batch_inv_xhr)

lemma batch_inv_run: "batch_inv urls b \<Longrightarrow> batch_inv urls (batch_run es b)"
  by (induction es arbitrary: b) (simp_all add: batch_inv_step)

lemma batch_inv_reachable: "batch_inv urls (batch_run es (crawl_urls urls))"
  by (simp add: batch_inv_run batch_inv_init)

lemma batch_finished_iff:
  assumes "batch_inv urls b"
  shows "running b = 0 \<longleftrightarrow> pending_tasks b = [] \<and> in_flight b = []"
proof -
  have "running b = int (length (pending_tasks b)) + int (length (in_flight b))"
    using assms by (simp add: batch_inv_def)
  then have "running b = 0 \<longleftrightarrow> length (pending_tasks b) = 0 \<and> length (in_flight b) = 0"
    by linarith
  then show ?thesis by simp
qed

text \<open>
  For every list of urls and every run of events: \<^verbatim>\<open>onDone\<close> is called at most once; it
  has been called exactly when the list is not empty, every task is settled and every
  request has ended; and then one record per url has been sent.
\<close>

lemma onDone_once_after_all_records:
  "onDone_calls (batch_run es (crawl_urls urls)) \<le> 1 \<and>
   (onDone_calls (batch_run es (crawl_urls urls)) = 1 \<longleftrightarrow>
      urls \<noteq> [] \<and> pending_tasks (batch_run es (crawl_urls urls)) = [] \<and>
      in_flight (batch_run es (crawl_urls urls)) = []) \<and>
   (onDone_calls (batch_run es (crawl_urls urls)) = 1 \<longrightarrow>
      length (sent (batch_run es (crawl_urls urls))) = length urls)"
proof -
  let ?b = "batch_run es (crawl_urls urls)"
  have inv: "batch_inv urls ?b" by (rule batch_inv_reachable)
  have calls: "onDone_calls ?b = (if urls \<noteq> [] \<and> running ?b = 0 then 1 else 0)"
    using inv by (simp add: batch_inv_def)
  have len: "length (sent ?b) + length (pending_tasks ?b) = length urls"
    using inv by (simp add: batch_inv_def)
  show ?thesis
    using calls len batch_finished_iff [OF inv] by (auto split: if_splits)
qed

text \<open>
  Claim C2, at the empty list. The loop body never runs, so no task is spawned, no
  request is sent, no event can change the state, and \<^verbatim>\<open>taskDone\<close>, the only caller of
  \<^verbatim>\<open>onDone\<close>, is never called: \<^verbatim>\<open>onDone\<close> is not called at all, where the claim has
  the batch complete at once.
\<close>

theorem crawl_urls_empty_never_done:
  "crawl_urls [] =
     \<lparr>pending_tasks = [], running = 0, sent = [], in_flight = [], reported = [],
      windowCloser_stops = 0, onDone_calls = 0\<rparr> \<and>
   batch_run es (crawl_urls []) = crawl_urls [] \<and>
   onDone_calls (batch_run es (crawl_urls [])) = 0"
proof -
  have e: "crawl_urls [] =
     \<lparr>pending_tasks = [], running = 0, sent = [], in_flight = [], reported = [],
      windowCloser_stops = 0, onDone_calls = 0\<rparr>"
    by (simp add: crawl_urls_def)
  have step: "batch_step ev (crawl_urls []) = crawl_urls []" for ev
    by (cases ev) (simp_all add: e)
  have "batch_run es (crawl_urls []) = crawl_urls []"
    by (induction es) (simp_all add: step)
  then show ?thesis using e by simp
qed

lemma batch_run_append: "batch_run (xs @ ys) b = batch_run ys (batch_run xs b)"
  by (induction xs arbitrary: b) simp_all

lemma records_of_step_other:
  "map_of (pending_tasks b) i = None \<Longrightarrow>
   records_of i (batch_step ev b) = records_of i b \<and>
   map_of (pending_tasks (batch_step ev b)) i = None"
proof (cases ev)
  case (Task_settles j outcome now)
  assume none: "map_of (pending_tasks b) i = None"
  show ?thesis
  proof (cases "map_of (pending_tasks b) j")
    case None
    then show ?thesis using Task_settles none by simp
  next
    case (Some u)
    then have "j \<noteq> i" using none by auto
    moreover have "map_of (filter (\<lambda>t. fst t \<noteq> j) (pending_tasks b)) i = None"
      using none by (simp add: map_of_eq_None_iff image_iff)
    ultimately show ?thesis
      using Task_settles Some
      by (cases outcome) (simp_all add: records_of_def send_record_def)
  qed
next
  case (Xhr_ends j x)
  assume "map_of (pending_tasks b) i = None"
  then show ?thesis using Xhr_ends by (simp add: records_of_def taskDone_def Let_def)
qed

lemma records_of_run_other:
  "map_of (pending_tasks b) i = None \<Longrightarrow> records_of i (batch_run es b) = records_of i b"
proof (induction es arbitrary: b)
  case Nil
  then show ?case by simp
next
  case (Cons ev es)
  then show ?case using records_of_step_other [of b i ev] by simp
qed

lemma settle_throw_step:
  assumes inv: "batch_inv urls b" and p: "map_of (pending_tasks b) i = Some u"
  shows "records_of i b = []"
    and "records_of i (batch_step (Task_settles i (Throw e) now) b) = [failure_record u now e]"
    and "map_of (pending_tasks (batch_step (Task_settles i (Throw e) now) b)) i = None"
    and "running (batch_step (Task_settles i (Throw e) now) b) = running b"
    and "j \<noteq> i \<Longrightarrow> records_of j (batch_step (Task_settles i (Throw e) now) b) = records_of j b"
    and "i < length urls" and "u = urls ! i"
proof -
  have mem: "(i, u) \<in> set (pending_tasks b)" using p by (rule map_of_SomeD)
  have "fst (i, u) < length urls \<and> snd (i, u) = urls ! fst (i, u) \<and> fst (i, u) \<notin> fst ` set (sent b)"
    using inv mem unfolding batch_inv_def by blast
  then have i: "i < length urls" "u = urls ! i" "i \<notin> fst ` set (sent b)" by simp_all
  show "i < length urls" "u = urls ! i" using i by simp_all
  have "filter (\<lambda>s. fst s = i) (sent b) = []"
    using i(3) by (auto simp: filter_empty_conv)
  then show none: "records_of i b = []" by (simp add: records_of_def)
  show "records_of i (batch_step (Task_settles i (Throw e) now) b) = [failure_record u now e]"
    using p none by (simp add: records_of_def send_record_def)
  show "map_of (pending_tasks (batch_step (Task_settles i (Throw e) now) b)) i = None"
    using p by (simp add: send_record_def map_of_eq_None_iff image_iff)
  show "running (batch_step (Task_settles i (Throw e) now) b) = running b"
    using p by (simp add: send_record_def)
  show "j \<noteq> i \<Longrightarrow> records_of j (batch_step (Task_settles i (Throw e) now) b) = records_of j b"
    using p by (simp add: records_of_def send_record_def)
qed

lemma onDone_when_finished:
  assumes "batch_inv urls b" "urls \<noteq> []" "pending_tasks b = []" "in_flight b = []"
  shows "onDone_calls b = 1"
  using assms batch_finished_iff [of urls b] unfolding batch_inv_def by auto

lemma failed_job_release1:
  assumes "final (crawl_url1 u tab wid env) = Throw e"
  shows "if new_RequestNotifier env = None \<and> notifier_shutdown env \<noteq> None
         then releases (calls (crawl_url1 u tab wid env)) = [] \<and> notifier_shutdown env = Some e
         else releases (calls (crawl_url1 u tab wid env)) = [tab]"
proof (cases "new_RequestNotifier env = None \<and> notifier_shutdown env \<noteq> None")
  case True
  then obtain x where x: "notifier_shutdown env = Some x" by blast
  have "releases (calls (crawl_url1 u tab wid env)) = [] \<and> final (crawl_url1 u tab wid env) = Throw x"
    using True x by (intro crawl_url1_skips) simp_all
  then show ?thesis using True x assms by simp
next
  case False
  then show ?thesis using crawl_url1_releases [of env u tab wid] by auto
qed

lemma failed_job_release2:
  assumes "final (crawl_url2 u tab wid env) = Throw e"
  shows "if new_RequestNotifier env = None \<and> notifier_shutdown env \<noteq> None
         then releases (calls (crawl_url2 u tab wid env)) = [] \<and> notifier_shutdown env = Some e
         else releases (calls (crawl_url2 u tab wid env)) = [tab]"
proof (cases "new_RequestNotifier env = None \<and> notifier_shutdown env \<noteq> None")
  case True
  then obtain x where x: "notifier_shutdown env = Some x" by blast
  have "releases (calls (crawl_url2 u tab wid env)) = [] \<and> final (crawl_url2 u tab wid env) = Throw x"
    using True x by (intro crawl_url2_skips) simp_all
  then show ?thesis using True x assms by simp
next
  case False
  then show ?thesis using crawl_url2_releases [of env u tab wid] by auto
qed

text \<open>
  Claim C8, as amended. Take any state the batch can reach in which task \<open>i\<close> is not
  settled, and let its promise be rejected with \<open>e\<close>. No record had been sent for the
  task; the handler sends one, and whatever happens later there is exactly this one
  record for the task. The record has the url of the task, the error field
  \<^verbatim>\<open>String(e)\<close> and a \<^verbatim>\<open>startTime\<close> that is the clock reading in the handler; it has no
  \<^verbatim>\<open>endTime\<close>. The counter \<^verbatim>\<open>running\<close> and the records of the other tasks are as
  before; \<^verbatim>\<open>onDone\<close> is called at most once, and it has been called once all tasks are
  settled and all requests have ended. A job (of either variant) that ended with \<open>e\<close>
  has released its tab, except when the request notifier was created and its
  \<^verbatim>\<open>shutdown\<close> threw: then \<open>e\<close> is the exception of \<^verbatim>\<open>shutdown\<close> and the tab was not
  released.
\<close>

theorem failed_job_still_reported:
  "map_of (pending_tasks (batch_run es (crawl_urls urls))) i = Some u \<longrightarrow>
     i < length urls \<and> u = urls ! i \<and>
     records_of i (batch_run es (crawl_urls urls)) = [] \<and>
     records_of i (batch_run es'
        (batch_step (Task_settles i (Throw e) now) (batch_run es (crawl_urls urls))))
       = [failure_record u now e] \<and>
     url (failure_record u now e) = u \<and>
     error (failure_record u now e) = Some (String_of e) \<and>
     startTime (failure_record u now e) = Some now \<and>
     endTime (failure_record u now e) = None \<and>
     running (batch_step (Task_settles i (Throw e) now) (batch_run es (crawl_urls urls)))
       = running (batch_run es (crawl_urls urls)) \<and>
     (j \<noteq> i \<longrightarrow>
        records_of j (batch_step (Task_settles i (Throw e) now) (batch_run es (crawl_urls urls)))
          = records_of j (batch_run es (crawl_urls urls))) \<and>
     onDone_calls (batch_run es'
          (batch_step (Task_settles i (Throw e) now) (batch_run es (crawl_urls urls)))) \<le> 1 \<and>
     (pending_tasks (batch_run es'
          (batch_step (Task_settles i (Throw e) now) (batch_run es (crawl_urls urls)))) = [] \<and>
      in_flight (batch_run es'
          (batch_step (Task_settles i (Throw e) now) (batch_run es (crawl_urls urls)))) = [] \<longrightarrow>
      onDone_calls (batch_run es'
          (batch_step (Task_settles i (Throw e) now) (batch_run es (crawl_urls urls)))) = 1) \<and>
     (final (crawl_url1 u tab wid env) = Throw e \<longrightarrow>
        (if new_RequestNotifier env = None \<and> notifier_shutdown env \<noteq> None
         then releases (calls (crawl_url1 u tab wid env)) = [] \<and> notifier_shutdown env = Some e
         else releases (calls (crawl_url1 u tab wid env)) = [tab])) \<and>
     (final (crawl_url2 u tab wid env) = Throw e \<longrightarrow>
        (if new_RequestNotifier env = None \<and> notifier_shutdown env \<noteq> None
         then releases (calls (crawl_url2 u tab wid env)) = [] \<and> notifier_shutdown env = Some e
         else releases (calls (crawl_url2 u tab wid env)) = [tab]))"
proof
  let ?b = "batch_run es (crawl_urls urls)"
  let ?b1 = "batch_step (Task_settles i (Throw e) now) ?b"
  let ?b2 = "batch_run es' ?b1"
  let ?skip = "new_RequestNotifier env = None \<and> notifier_shutdown env \<noteq> None"
  assume p: "map_of (pending_tasks ?b) i = Some u"
  have inv: "batch_inv urls ?b" by (rule batch_inv_reachable)
  note s = settle_throw_step [OF inv p]
  have r2: "records_of i ?b2 = [failure_record u now e]"
    using records_of_run_other [OF s(3), of es'] s(2) by simp
  have inv2: "batch_inv urls ?b2"
    by (rule batch_inv_run, rule batch_inv_step, rule inv)
  have ne: "urls \<noteq> []" using s(6) by auto
  have once: "onDone_calls ?b2 \<le> 1"
    using inv2 by (simp add: batch_inv_def)
  have ond: "pending_tasks ?b2 = [] \<and> in_flight ?b2 = [] \<longrightarrow> onDone_calls ?b2 = 1"
    using onDone_when_finished [OF inv2 ne] by blast
  have rel1: "final (crawl_url1 u tab wid env) = Throw e \<longrightarrow>
        (if ?skip
         then releases (calls (crawl_url1 u tab wid env)) = [] \<and> notifier_shutdown env = Some e
         else releases (calls (crawl_url1 u tab wid env)) = [tab])"
    using failed_job_release1 [of u tab wid env e] by blast
  have rel2: "final (crawl_url2 u tab wid env) = Throw e \<longrightarrow>
        (if ?skip
         then releases (calls (crawl_url2 u tab wid env)) = [] \<and> notifier_shutdown env = Some e
         else releases (calls (crawl_url2 u tab wid env)) = [tab])"
    using failed_job_release2 [of u tab wid env e] by blast
  have f: "url (failure_record u now e) = u" "error (failure_record u now e) = Some (String_of e)"
    "startTime (failure_record u now e) = Some now" "endTime (failure_record u now e) = None"
    by (simp_all add: failure_record_def)
  show "i < length urls \<and> u = urls ! i \<and> records_of i ?b = [] \<and>
     records_of i ?b2 = [failure_record u now e] \<and>
     url (failure_record u now e) = u \<and>
     error (failure_record u now e) = Some (String_of e) \<and>
     startTime (failure_record u now e) = Some now \<and>
     endTime (failure_record u now e) = None \<and>
     running ?b1 = running ?b \<and>
     (j \<noteq> i \<longrightarrow> records_of j ?b1 = records_of j ?b) \<and>
     onDone_calls ?b2 \<le> 1 \<and>
     (pending_tasks ?b2 = [] \<and> in_flight ?b2 = [] \<longrightarrow> onDone_calls ?b2 = 1) \<and>
     (final (crawl_url1 u tab wid env) = Throw e \<longrightarrow>
        (if ?skip
         then releases (calls (crawl_url1 u tab wid env)) = [] \<and> notifier_shutdown env = Some e
         else releases (calls (crawl_url1 u tab wid env)) = [tab])) \<and>
     (final (crawl_url2 u tab wid env) = Throw e \<longrightarrow>
        (if ?skip
         then releases (calls (crawl_url2 u tab wid env)) = [] \<and> notifier_shutdown env = Some e
         else releases (calls (crawl_url2 u tab wid env)) = [tab]))"
    using s(1) s(4) s(5) s(6) s(7) r2 f once ond rel1 rel2 by blast
qed

text \<open>
  Claim C8 as stated fails twice. A job sets \<^verbatim>\<open>result.startTime\<close> to 100 and then
  \<^verbatim>\<open>loadURI\<close> throws; the record sent for it has the \<^verbatim>\<open>startTime\<close> 250 of the handler,
  not the 100 that was set before the failure. And a job whose exception is thrown by
  \<^verbatim>\<open>requestNotifier.shutdown()\<close> is reported like any other failure, but it has not
  released its tab.
\<close>

theorem failed_job_counterexample:
  "final (crawl_url1 ''http://a/'' 3 17 failing_env) = Throw (Exn ''NS_ERROR_MALFORMED_URI'') \<and>
   startTime (local_result (crawl_url1 ''http://a/'' 3 17 failing_env)) = Some 100 \<and>
   map startTime (records_of 0
      (batch_run [Task_settles 0 (final (crawl_url1 ''http://a/'' 3 17 failing_env)) 250]
         (crawl_urls [''http://a/'']))) = [Some 250] \<and>
   final (crawl_url1 ''http://a/'' 3 17
      (good_env\<lparr>notifier_shutdown := Some (Exn ''NS_ERROR_UNEXPECTED'')\<rparr>))
     = Throw (Exn ''NS_ERROR_UNEXPECTED'') \<and>
   releases (calls (crawl_url1 ''http://a/'' 3 17
      (good_env\<lparr>notifier_shutdown := Some (Exn ''NS_ERROR_UNEXPECTED'')\<rparr>))) = [] \<and>
   map error (records_of 0
      (batch_run [Task_settles 0 (final (crawl_url1 ''http://a/'' 3 17
            (good_env\<lparr>notifier_shutdown := Some (Exn ''NS_ERROR_UNEXPECTED'')\<rparr>))) 250]
         (crawl_urls [''http://a/'']))) = [Some ''NS_ERROR_UNEXPECTED'']"
  by (simp add: crawl_url1_def finally_block_def try_block1_def failing_env_def good_env_def
      new_result_def Let_def crawl_urls_def records_of_def send_record_def failure_record_def
      releases_simps)

theorem failed_job_still_reported_witness:
  "map_of (pending_tasks (batch_run [] (crawl_urls [''http://a/'', ''http://b/'']))) 1 = Some ''http://b/'' \<and>
   records_of 1 (batch_run [Xhr_ends 0 Xhr_load, Task_settles 0 (Normal (new_result ''http://a/'')) 300,
        Xhr_ends 1 Xhr_error]
        (batch_step (Task_settles 1 (Throw (Exn ''boom'')) 250)
           (batch_run [] (crawl_urls [''http://a/'', ''http://b/'']))))
     = [failure_record ''http://b/'' 250 (Exn ''boom'')] \<and>
   onDone_calls (batch_run [Xhr_ends 0 Xhr_load, Task_settles 0 (Normal (new_result ''http://a/'')) 300,
        Xhr_ends 1 Xhr_error]
        (batch_step (Task_settles 1 (Throw (Exn ''boom'')) 250)
           (batch_run [] (crawl_urls [''http://a/'', ''http://b/''])))) = 1 \<and>
   final (crawl_url1 ''http://b/'' 3 17 (failing_env\<lparr>loadURI := Some (Exn ''boom'')\<rparr>)) = Throw (Exn ''boom'') \<and>
   releases (calls (crawl_url1 ''http://b/'' 3 17 (failing_env\<lparr>loadURI := Some (Exn ''boom'')\<rparr>))) = [3] \<and>
   final (crawl_url2 ''http://b/'' 3 17 (good_env\<lparr>notifier_shutdown := Some (Exn ''boom'')\<rparr>)) = Throw (Exn ''boom'') \<and>
   releases (calls (crawl_url2 ''http://b/'' 3 17 (good_env\<lparr>notifier_shutdown := Some (Exn ''boom'')\<rparr>))) = []"
proof -
  let ?es = "[Xhr_ends 0 Xhr_load, Task_settles 0 (Normal (new_result ''http://a/'')) 300, Xhr_ends 1 Xhr_error]"
  let ?env1 = "failing_env\<lparr>loadURI := Some (Exn ''boom'')\<rparr>"
  let ?env2 = "good_env\<lparr>notifier_shutdown := Some (Exn ''boom'')\<rparr>"
  have p: "map_of (pending_tasks (batch_run [] (crawl_urls [''http://a/'', ''http://b/'']))) 1 = Some ''http://b/''"
    by (simp add: crawl_urls_def)
  have q: "pending_tasks (batch_run ?es
        (batch_step (Task_settles 1 (Throw (Exn ''boom'')) 250)
           (batch_run [] (crawl_urls [''http://a/'', ''http://b/''])))) = [] \<and>
     in_flight (batch_run ?es
        (batch_step (Task_settles 1 (Throw (Exn ''boom'')) 250)
           (batch_run [] (crawl_urls [''http://a/'', ''http://b/''])))) = []"
    by (simp add: crawl_urls_def send_record_def taskDone_def Let_def)
  have f: "final (crawl_url1 ''http://b/'' 3 17 ?env1) = Throw (Exn ''boom'')"
    "\<not> (new_RequestNotifier ?env1 = None \<and> notifier_shutdown ?env1 \<noteq> None)"
    by (simp_all add: crawl_url1_def finally_block_def try_block1_def failing_env_def good_env_def Let_def)
  have g: "final (crawl_url2 ''http://b/'' 3 17 ?env2) = Throw (Exn ''boom'')"
    "new_RequestNotifier ?env2 = None \<and> notifier_shutdown ?env2 \<noteq> None"
    by (simp_all add: crawl_url2_def finally_block_def try_block2_def good_env_def good_window_def
        capture_screenshot2_def Let_def)
  note t1 = failed_job_still_reported [of "[]" "[''http://a/'', ''http://b/'']" 1 "''http://b/''"
        ?es "Exn ''boom''" 250 0 3 17 ?env1]
  note t2 = failed_job_still_reported [of "[]" "[''http://a/'', ''http://b/'']" 1 "''http://b/''"
        ?es "Exn ''boom''" 250 0 3 17 ?env2]
  have a: "records_of 1 (batch_run ?es
        (batch_step (Task_settles 1 (Throw (Exn ''boom'')) 250)
           (batch_run [] (crawl_urls [''http://a/'', ''http://b/'']))))
     = [failure_record ''http://b/'' 250 (Exn ''boom'')]"
    using t1 p by blast
  have b: "onDone_calls (batch_run ?es
        (batch_step (Task_settles 1 (Throw (Exn ''boom'')) 250)
           (batch_run [] (crawl_urls [''http://a/'', ''http://b/''])))) = 1"
    using t1 p q by blast
  have c: "releases (calls (crawl_url1 ''http://b/'' 3 17 ?env1)) = [3]"
    using t1 p f by presburger
  have d: "releases (calls (crawl_url2 ''http://b/'' 3 17 ?env2)) = []"
    using t2 p g by presburger
  show ?thesis using p a b c d f(1) g(1) by blast
qed

section \<open>TabAllocator\<close>

lemma createTab1_eq:
  "createTab1 a =
     (b_next (a_browser a),
      a\<lparr>a_tabs := a_tabs a + 1,
        a_browser := (a_browser a)\<lparr>b_tabs := b_tabs (a_browser a) @ [b_next (a_browser a)],
                                  b_next := Suc (b_next (a_browser a))\<rparr>\<rparr>)"
  by (simp add: createTab1_def addTab_def)

lemma getTab1_shape:
  "(\<exists>t. a_granted (getTab1 r a) = a_granted a @ [(r, t)] \<and>
        a_resolvers (getTab1 r a) = a_resolvers a \<and> a_queued (getTab1 r a) = a_queued a \<and>
        (a_tab a \<noteq> None \<or> a_tabs a < a_maxtabs a)) \<or>
   (a_granted (getTab1 r a) = a_granted a \<and>
        a_resolvers (getTab1 r a) = a_resolvers a @ [r] \<and>
        a_queued (getTab1 r a) = a_queued a @ [r] \<and>
        a_tab a = None \<and> \<not> a_tabs a < a_maxtabs a)"
  by (cases "a_tab a") (auto simp: getTab1_def createTab1_eq grant_def enqueue_def)

lemma getTab1_same:
  "a_requests (getTab1 r a) = a_requests a" "a_released (getTab1 r a) = a_released a"
  "a_maxtabs (getTab1 r a) = a_maxtabs a" "a_thens (getTab1 r a) = a_thens a"
  by (cases "a_tab a"; simp add: getTab1_def createTab1_eq grant_def enqueue_def)+

lemma releaseTab1_shape:
  "(a_granted (releaseTab1 t a) = a_granted a \<and> a_resolvers (releaseTab1 t a) = a_resolvers a) \<or>
   (\<exists>r rs k. a_resolvers a = r # rs \<and> a_resolvers (releaseTab1 t a) = rs \<and>
        a_granted (releaseTab1 t a) = a_granted a @ [(r, k)])"
  by (cases "a_resolvers a"; cases "a_tab a")
     (auto simp: releaseTab1_def createTab1_eq grant_def Let_def)

lemma releaseTab1_same:
  "a_requests (releaseTab1 t a) = a_requests a" "a_released (releaseTab1 t a) = a_released a"
  "a_maxtabs (releaseTab1 t a) = a_maxtabs a" "a_queued (releaseTab1 t a) = a_queued a"
  by (cases "a_resolvers a"; cases "a_tab a";
      simp add: releaseTab1_def createTab1_eq grant_def Let_def)+

lemma queue_inv_getTab1:
  assumes "queue_inv a"
  shows "queue_inv (getTab1 (a_requests a) (a\<lparr>a_requests := Suc (a_requests a)\<rparr>))"
proof -
  let ?a = "a\<lparr>a_requests := Suc (a_requests a)\<rparr>"
  let ?r = "a_requests a"
  have fresh: "?r \<notin> set (a_queued a)" "?r \<notin> fst ` set (a_granted a)"
    using assms unfolding queue_inv_def by auto
  have nf: "filter (\<lambda>r. r = ?r \<or> r \<in> set (a_queued a)) (map fst (a_granted a))
        = filter (\<lambda>r. r \<in> set (a_queued a)) (map fst (a_granted a))"
    using fresh(2) by (intro filter_cong) force+
  from getTab1_shape [of ?r ?a] show ?thesis
  proof
    assume "\<exists>t. a_granted (getTab1 ?r ?a) = a_granted ?a @ [(?r, t)] \<and>
        a_resolvers (getTab1 ?r ?a) = a_resolvers ?a \<and> a_queued (getTab1 ?r ?a) = a_queued ?a \<and>
        (a_tab ?a \<noteq> None \<or> a_tabs ?a < a_maxtabs ?a)"
    then show ?thesis
      using assms fresh unfolding queue_inv_def
      by (auto simp: getTab1_same less_Suc_eq)
  next
    assume "a_granted (getTab1 ?r ?a) = a_granted ?a \<and>
        a_resolvers (getTab1 ?r ?a) = a_resolvers ?a @ [?r] \<and>
        a_queued (getTab1 ?r ?a) = a_queued ?a @ [?r] \<and>
        a_tab ?a = None \<and> \<not> a_tabs ?a < a_maxtabs ?a"
    then show ?thesis
      using assms fresh nf unfolding queue_inv_def
      by (auto simp: getTab1_same less_Suc_eq sorted_wrt_append)
  qed
qed

lemma queue_inv_releaseTab1:
  assumes "queue_inv a"
  shows "queue_inv (releaseTab1 t a)"
proof -
  from releaseTab1_shape [of t a] show ?thesis
  proof
    assume "a_granted (releaseTab1 t a) = a_granted a \<and> a_resolvers (releaseTab1 t a) = a_resolvers a"
    then show ?thesis using assms unfolding queue_inv_def by (simp add: releaseTab1_same)
  next
    assume "\<exists>r rs k. a_resolvers a = r # rs \<and> a_resolvers (releaseTab1 t a) = rs \<and>
        a_granted (releaseTab1 t a) = a_granted a @ [(r, k)]"
    then obtain r rs k where s: "a_resolvers a = r # rs" "a_resolvers (releaseTab1 t a) = rs"
        "a_granted (releaseTab1 t a) = a_granted a @ [(r, k)]" by blast
    have q: "filter (\<lambda>r. r \<in> set (a_queued a)) (map fst (a_granted a)) @ r # rs = a_queued a"
      using assms s(1) unfolding queue_inv_def by simp
    then have mem: "r \<in> set (a_queued a)" by (metis in_set_conv_decomp)
    then have "r < a_requests a" using assms unfolding queue_inv_def by blast
    then show ?thesis
      using assms s q mem unfolding queue_inv_def by (auto simp: releaseTab1_same)
  qed
qed

lemma queue_inv_fields:
  "a_queued a' = a_queued a \<Longrightarrow> a_granted a' = a_granted a \<Longrightarrow> a_resolvers a' = a_resolvers a \<Longrightarrow>
   a_requests a' = a_requests a \<Longrightarrow> queue_inv a' = queue_inv a"
  by (simp add: queue_inv_def)

lemma queue_inv_step1: "queue_inv a \<Longrightarrow> queue_inv (pool_step1 e a)"
proof (cases e)
  case Get_tab
  assume "queue_inv a"
  then show ?thesis using Get_tab queue_inv_getTab1 by simp
next
  case (Release t)
  assume q: "queue_inv a"
  have "queue_inv (a\<lparr>a_released := a_released a @ [t]\<rparr>)"
    using q by (simp add: queue_inv_def)
  then show ?thesis using Release q queue_inv_releaseTab1 by simp
next
  case (Tab_ready n)
  assume q: "queue_inv a"
  have d: "queue_inv (drop_then n a)" using q by (simp add: queue_inv_def drop_then_def)
  have r: "queue_inv ((drop_then n a)\<lparr>a_browser := b\<rparr>)" for b
    using q by (simp add: queue_inv_def drop_then_def)
  show ?thesis
    using Tab_ready q d r queue_inv_releaseTab1
    by (simp split: option.splits then_callback.splits)
next
  case (Retry r)
  assume "queue_inv a"
  then show ?thesis using Retry by simp
qed


lemma room_inv_getTab1: "room_inv a \<Longrightarrow> room_inv (getTab1 r a)"
  by (cases "a_tab a") (auto simp: room_inv_def getTab1_def createTab1_eq grant_def enqueue_def)

lemma room_inv_releaseTab1: "room_inv a \<Longrightarrow> room_inv (releaseTab1 t a)"
  by (cases "a_resolvers a"; cases "a_tab a")
     (auto simp: room_inv_def releaseTab1_def createTab1_eq grant_def Let_def)

lemma room_inv_step1: "room_inv a \<Longrightarrow> room_inv (pool_step1 e a)"
proof (cases e)
  case Get_tab
  assume r: "room_inv a"
  have "room_inv (a\<lparr>a_requests := Suc (a_requests a)\<rparr>)" using r by (simp add: room_inv_def)
  then show ?thesis using Get_tab room_inv_getTab1 by simp
next
  case (Release t)
  assume r: "room_inv a"
  have "room_inv (a\<lparr>a_released := a_released a @ [t]\<rparr>)" using r by (simp add: room_inv_def)
  then show ?thesis using Release r room_inv_releaseTab1 by simp
next
  case (Tab_ready n)
  assume r: "room_inv a"
  have d: "room_inv (drop_then n a)" using r by (simp add: room_inv_def drop_then_def)
  have b: "room_inv ((drop_then n a)\<lparr>a_browser := b\<rparr>)" for b
    using r by (simp add: room_inv_def drop_then_def)
  show ?thesis
    using Tab_ready r d b room_inv_releaseTab1
    by (simp split: option.splits then_callback.splits)
next
  case (Retry r)
  assume "room_inv a"
  then show ?thesis using Retry by simp
qed

lemma pool_inv_run1:
  "queue_inv a \<Longrightarrow> room_inv a \<Longrightarrow> queue_inv (pool_run1 es a) \<and> room_inv (pool_run1 es a)"
  by (induction es arbitrary: a) (simp_all add: queue_inv_step1 room_inv_step1)

lemma TabAllocator1_inv:
  "TabAllocator1 b m = Some a \<Longrightarrow> queue_inv a \<and> room_inv a"
  by (auto simp: TabAllocator1_def createTab1_eq empty_allocator_def queue_inv_def room_inv_def
      split: list.splits)

lemma browser_window_tabs: "b_tabs (browser_window k) = 0 # [1..<Suc k]"
  by (simp add: browser_window_def upt_conv_Cons del: upt_Suc)

lemma removeAllTabsBut_window:
  "removeAllTabsBut 0 (browser_window k) = \<lparr>b_tabs = [0], b_next = Suc k\<rparr>"
proof -
  have "filter (\<lambda>x. x = 0) [1..<Suc k] = []" by (simp add: filter_empty_conv del: upt_Suc)
  then show ?thesis
    using browser_window_tabs [of k] by (simp add: removeAllTabsBut_def browser_window_def del: upt_Suc)
qed

lemma TabAllocator1_window:
  "TabAllocator1 (browser_window k) m =
     Some ((empty_allocator \<lparr>b_tabs = [0, Suc k], b_next = Suc (Suc k)\<rparr> m)
       \<lparr>a_tabs := 1, a_tab := Some (Suc k), a_thens := [(Suc k, Remove_old 0)]\<rparr>)"
  using browser_window_tabs [of k] removeAllTabsBut_window [of k]
  by (simp add: TabAllocator1_def createTab1_eq empty_allocator_def del: upt_Suc)

lemma getTab1_queues:
  "a_tab a = None \<Longrightarrow> a_maxtabs a \<le> a_tabs a \<Longrightarrow> getTab1 r a = enqueue r a"
  by (simp add: getTab1_def)

lemma order_inv_first_calls:
  assumes "order_inv a" "a_resolvers a = [] \<or> (a_tab a = None \<and> a_maxtabs a \<le> a_tabs a)"
  shows "order_inv (pool_step1 Get_tab a) \<and>
         (a_resolvers (pool_step1 Get_tab a) = [] \<or>
          (a_tab (pool_step1 Get_tab a) = None \<and>
           a_maxtabs (pool_step1 Get_tab a) \<le> a_tabs (pool_step1 Get_tab a)))"
proof (cases "a_tab a")
  case (Some t)
  then have "a_resolvers a = []" using assms(2) by auto
  then show ?thesis
    using Some assms(1)
    by (auto simp: order_inv_def getTab1_def grant_def sorted_wrt_append less_Suc_eq)
next
  case None
  show ?thesis
  proof (cases "a_tabs a < a_maxtabs a")
    case True
    then have "a_resolvers a = []" using assms(2) by auto
    then show ?thesis
      using None True assms(1)
      by (auto simp: order_inv_def getTab1_def createTab1_eq grant_def sorted_wrt_append less_Suc_eq)
  next
    case False
    then show ?thesis
      using None assms(1)
      by (auto simp: order_inv_def getTab1_def enqueue_def sorted_wrt_append less_Suc_eq)
  qed
qed

lemma order_inv_first_run:
  assumes "order_inv a" "a_resolvers a = [] \<or> (a_tab a = None \<and> a_maxtabs a \<le> a_tabs a)"
  shows "order_inv (pool_run1 (replicate n Get_tab) a)"
  using assms
proof (induction n arbitrary: a)
  case 0
  then show ?case by simp
next
  case (Suc n)
  from order_inv_first_calls [OF Suc.prems]
  show ?case using Suc.IH [of "pool_step1 Get_tab a"] by simp
qed

lemma order_inv_releaseTab1:
  assumes "order_inv a"
  shows "order_inv (releaseTab1 t a)"
proof -
  from releaseTab1_shape [of t a] show ?thesis
  proof
    assume "a_granted (releaseTab1 t a) = a_granted a \<and> a_resolvers (releaseTab1 t a) = a_resolvers a"
    then show ?thesis using assms by (simp add: order_inv_def releaseTab1_same)
  next
    assume "\<exists>r rs k. a_resolvers a = r # rs \<and> a_resolvers (releaseTab1 t a) = rs \<and>
        a_granted (releaseTab1 t a) = a_granted a @ [(r, k)]"
    then obtain r rs k where s: "a_resolvers a = r # rs" "a_resolvers (releaseTab1 t a) = rs"
        "a_granted (releaseTab1 t a) = a_granted a @ [(r, k)]" by blast
    then show ?thesis using assms by (simp add: order_inv_def releaseTab1_same)
  qed
qed

lemma order_inv_later_step:
  assumes "order_inv a" "e \<noteq> Get_tab"
  shows "order_inv (pool_step1 e a)"
proof (cases e)
  case Get_tab
  then show ?thesis using assms(2) by simp
next
  case (Release t)
  have "order_inv (a\<lparr>a_released := a_released a @ [t]\<rparr>)"
    using assms(1) by (simp add: order_inv_def)
  then show ?thesis using Release assms(1) order_inv_releaseTab1 by simp
next
  case (Tab_ready n)
  have d: "order_inv (drop_then n a)" using assms(1) by (simp add: order_inv_def drop_then_def)
  have b: "order_inv ((drop_then n a)\<lparr>a_browser := b\<rparr>)" for b
    using assms(1) by (simp add: order_inv_def drop_then_def)
  show ?thesis
    using Tab_ready assms(1) d b order_inv_releaseTab1
    by (simp split: option.splits then_callback.splits)
next
  case (Retry r)
  then show ?thesis using assms(1) by simp
qed

lemma order_inv_later_run:
  assumes "order_inv a" "\<forall>e \<in> set es. e \<noteq> Get_tab"
  shows "order_inv (pool_run1 es a)"
  using assms
  by (induction es arbitrary: a) (simp_all add: order_inv_later_step)

lemma pool_run1_append: "pool_run1 (xs @ ys) a = pool_run1 ys (pool_run1 xs a)"
  by (induction xs arbitrary: a) simp_all

lemma calls_first_served_in_order:
  assumes "TabAllocator1 (browser_window k) m = Some a0" "\<forall>e \<in> set es. e \<noteq> Get_tab"
  shows "sorted_wrt (<) (map fst (a_granted (pool_run1 (replicate n Get_tab @ es) a0)))"
proof -
  have i: "order_inv a0" "a_resolvers a0 = []"
    using assms(1) unfolding TabAllocator1_window
    by (auto simp: order_inv_def empty_allocator_def)
  have "order_inv (pool_run1 (replicate n Get_tab) a0)"
    using order_inv_first_run [of a0 n] i by simp
  then have "order_inv (pool_run1 (replicate n Get_tab @ es) a0)"
    using order_inv_later_run [OF _ assms(2)] by (simp add: pool_run1_append)
  then show ?thesis by (simp add: order_inv_def sorted_wrt_append)
qed

lemma releaseTab1_hands_over:
  assumes "a_tabs a \<noteq> 1" "a_resolvers a \<noteq> []"
  shows "if a_tab a \<noteq> None \<or> a_tabs a \<le> a_maxtabs a
         then a_resolvers (releaseTab1 t a) = tl (a_resolvers a) \<and>
              a_granted (releaseTab1 t a) =
                a_granted a @ [(hd (a_resolvers a),
                                case a_tab a of Some p \<Rightarrow> p | None \<Rightarrow> b_next (a_browser a))] \<and>
              a_tab (releaseTab1 t a) = None
         else a_resolvers (releaseTab1 t a) = a_resolvers a \<and>
              a_granted (releaseTab1 t a) = a_granted a"
  using assms
  by (cases "a_resolvers a"; cases "a_tab a")
     (auto simp: releaseTab1_def createTab1_eq grant_def removeTab_def Let_def)

lemma releaseTab1_defers:
  assumes "a_tabs a = 1"
  shows "a_tab (releaseTab1 t a) = Some (b_next (a_browser a)) \<and>
         a_thens (releaseTab1 t a) = a_thens a @ [(b_next (a_browser a), Release_again t)] \<and>
         b_tabs (a_browser (releaseTab1 t a)) = b_tabs (a_browser a) @ [b_next (a_browser a)] \<and>
         a_resolvers (releaseTab1 t a) = a_resolvers a \<and>
         a_granted (releaseTab1 t a) = a_granted a"
  using assms by (simp add: releaseTab1_def createTab1_eq)

lemma runs_releaseTab_step:
  assumes "runs_releaseTab e t a"
  shows "\<exists>a'. pool_step1 e a = releaseTab1 t a' \<and> a_tabs a' = a_tabs a \<and>
           a_maxtabs a' = a_maxtabs a \<and> a_resolvers a' = a_resolvers a \<and>
           a_granted a' = a_granted a \<and> a_tab a' = a_tab a \<and> a_browser a' = a_browser a \<and>
           set (a_thens a') \<subseteq> set (a_thens a)"
proof (cases e)
  case Get_tab
  then show ?thesis using assms by (simp add: runs_releaseTab_def)
next
  case (Release t')
  then have "pool_step1 e a = releaseTab1 t (a\<lparr>a_released := a_released a @ [t]\<rparr>)"
    using assms by (simp add: runs_releaseTab_def)
  then show ?thesis
    by (intro exI [of _ "a\<lparr>a_released := a_released a @ [t]\<rparr>"]) simp
next
  case (Tab_ready n)
  then have "pool_step1 e a = releaseTab1 t (drop_then n a)"
    using assms by (simp add: runs_releaseTab_def)
  then show ?thesis
    by (intro exI [of _ "drop_then n a"]) (auto simp: drop_then_def)
next
  case (Retry r)
  then show ?thesis using assms by (simp add: runs_releaseTab_def)
qed


lemma step1_hands_over:
  assumes "runs_releaseTab e t a" "a_tabs a \<noteq> 1" "a_resolvers a \<noteq> []"
  shows "if a_tab a \<noteq> None \<or> a_tabs a \<le> a_maxtabs a
         then a_resolvers (pool_step1 e a) = tl (a_resolvers a) \<and>
              a_granted (pool_step1 e a) =
                a_granted a @ [(hd (a_resolvers a),
                                case a_tab a of Some p \<Rightarrow> p | None \<Rightarrow> b_next (a_browser a))] \<and>
              a_tab (pool_step1 e a) = None
         else a_resolvers (pool_step1 e a) = a_resolvers a \<and>
              a_granted (pool_step1 e a) = a_granted a"
proof -
  from runs_releaseTab_step [OF assms(1)] obtain a' where a':
    "pool_step1 e a = releaseTab1 t a'" "a_tabs a' = a_tabs a" "a_maxtabs a' = a_maxtabs a"
    "a_resolvers a' = a_resolvers a" "a_granted a' = a_granted a" "a_tab a' = a_tab a"
    "a_browser a' = a_browser a"
    by blast
  have "a_tabs a' \<noteq> 1" "a_resolvers a' \<noteq> []" using assms a' by simp_all
  from releaseTab1_hands_over [OF this, of t] show ?thesis
    unfolding a' .
qed

lemma step1_defers:
  assumes "runs_releaseTab e t a" "a_tabs a = 1"
  shows "a_tab (pool_step1 e a) = Some (b_next (a_browser a)) \<and>
         (b_next (a_browser a), Release_again t) \<in> set (a_thens (pool_step1 e a)) \<and>
         b_tabs (a_browser (pool_step1 e a)) = b_tabs (a_browser a) @ [b_next (a_browser a)] \<and>
         a_resolvers (pool_step1 e a) = a_resolvers a \<and>
         a_granted (pool_step1 e a) = a_granted a"
proof -
  from runs_releaseTab_step [OF assms(1)] obtain a' where a':
    "pool_step1 e a = releaseTab1 t a'" "a_tabs a' = a_tabs a"
    "a_resolvers a' = a_resolvers a" "a_granted a' = a_granted a" "a_browser a' = a_browser a"
    by blast
  have "a_tabs a' = 1" using assms a' by simp
  from releaseTab1_defers [OF this, of t] show ?thesis
    unfolding a' by simp
qed

lemma getTab1_takes_spare:
  assumes "a_tab a = Some p"
  shows "a_granted (pool_step1 Get_tab a) = a_granted a @ [(a_requests a, p)] \<and>
         a_resolvers (pool_step1 Get_tab a) = a_resolvers a \<and>
         a_tab (pool_step1 Get_tab a) = None \<and>
         a_browser (pool_step1 Get_tab a) = a_browser a"
  using assms by (simp add: getTab1_def grant_def)

text \<open>
  Claim C6, as amended. In every state the first variant can reach:
  \<^item> the requests that were queued are answered in the order they were queued, which is
    the order of their \<^verbatim>\<open>getTab\<close> calls (those answered so far, followed by those still
    waiting, are the queue as it was filled);
  \<^item> a call of \<^verbatim>\<open>releaseTab\<close> answers no request or answers the head of the queue;
  \<^item> when \<^verbatim>\<open>releaseTab\<close> runs with \<^verbatim>\<open>_tabs\<close> not 1 and requests waiting, it answers the
    head of the queue with the spare tab \<^verbatim>\<open>_tab\<close> if that is set, and otherwise with a
    new tab if \<^verbatim>\<open>_tabs\<close> is not above \<^verbatim>\<open>_maxtabs\<close>; it answers nobody only when \<^verbatim>\<open>_tab\<close>
    is not set and \<^verbatim>\<open>_tabs\<close> is above \<^verbatim>\<open>_maxtabs\<close>;
  \<^item> when \<^verbatim>\<open>releaseTab\<close> runs with \<^verbatim>\<open>_tabs\<close> equal to 1, it creates a new tab as the spare
    tab, keeps the old one open, answers nobody, and runs again when the new tab is
    ready;
  \<^item> while a request waits, \<^verbatim>\<open>_tabs\<close> is not below \<^verbatim>\<open>_maxtabs\<close>, and if the spare tab is
    not set a further \<^verbatim>\<open>getTab\<close> is queued behind it and gets no tab of its own;
  \<^item> a \<^verbatim>\<open>getTab\<close> that comes while \<^verbatim>\<open>_tab\<close> is set is given that tab at once and the
    queue is left as it was: this is where the claim as stated fails;
  \<^item> when all calls of \<^verbatim>\<open>getTab\<close> come first and no further one follows, as in
    \<^verbatim>\<open>crawl_urls\<close>, all requests are answered in the order of their calls.
\<close>

theorem queued_requests_served_in_order:
  "TabAllocator1 (browser_window k) m = Some a0 \<longrightarrow>
     filter (\<lambda>r. r \<in> set (a_queued (pool_run1 es a0))) (map fst (a_granted (pool_run1 es a0)))
        @ a_resolvers (pool_run1 es a0) = a_queued (pool_run1 es a0) \<and>
     sorted_wrt (<) (a_queued (pool_run1 es a0)) \<and>
     (a_granted (releaseTab1 t (pool_run1 es a0)) = a_granted (pool_run1 es a0) \<and>
      a_resolvers (releaseTab1 t (pool_run1 es a0)) = a_resolvers (pool_run1 es a0) \<or>
      (\<exists>tab. a_resolvers (pool_run1 es a0) \<noteq> [] \<and>
         a_granted (releaseTab1 t (pool_run1 es a0)) =
           a_granted (pool_run1 es a0) @ [(hd (a_resolvers (pool_run1 es a0)), tab)] \<and>
         a_resolvers (releaseTab1 t (pool_run1 es a0)) = tl (a_resolvers (pool_run1 es a0)))) \<and>
     (runs_releaseTab e t (pool_run1 es a0) \<and> a_tabs (pool_run1 es a0) \<noteq> 1 \<and>
      a_resolvers (pool_run1 es a0) \<noteq> [] \<longrightarrow>
        (if a_tab (pool_run1 es a0) \<noteq> None \<or> a_tabs (pool_run1 es a0) \<le> a_maxtabs (pool_run1 es a0)
         then a_resolvers (pool_step1 e (pool_run1 es a0)) = tl (a_resolvers (pool_run1 es a0)) \<and>
              a_granted (pool_step1 e (pool_run1 es a0)) =
                a_granted (pool_run1 es a0) @
                  [(hd (a_resolvers (pool_run1 es a0)),
                    case a_tab (pool_run1 es a0) of
                      Some p \<Rightarrow> p | None \<Rightarrow> b_next (a_browser (pool_run1 es a0)))] \<and>
              a_tab (pool_step1 e (pool_run1 es a0)) = None
         else a_resolvers (pool_step1 e (pool_run1 es a0)) = a_resolvers (pool_run1 es a0) \<and>
              a_granted (pool_step1 e (pool_run1 es a0)) = a_granted (pool_run1 es a0))) \<and>
     (runs_releaseTab e t (pool_run1 es a0) \<and> a_tabs (pool_run1 es a0) = 1 \<longrightarrow>
        a_tab (pool_step1 e (pool_run1 es a0)) = Some (b_next (a_browser (pool_run1 es a0))) \<and>
        (b_next (a_browser (pool_run1 es a0)), Release_again t)
           \<in> set (a_thens (pool_step1 e (pool_run1 es a0))) \<and>
        b_tabs (a_browser (pool_step1 e (pool_run1 es a0))) =
           b_tabs (a_browser (pool_run1 es a0)) @ [b_next (a_browser (pool_run1 es a0))] \<and>
        a_resolvers (pool_step1 e (pool_run1 es a0)) = a_resolvers (pool_run1 es a0) \<and>
        a_granted (pool_step1 e (pool_run1 es a0)) = a_granted (pool_run1 es a0)) \<and>
     (a_resolvers (pool_run1 es a0) \<noteq> [] \<longrightarrow>
        a_maxtabs (pool_run1 es a0) \<le> a_tabs (pool_run1 es a0)) \<and>
     (a_resolvers (pool_run1 es a0) \<noteq> [] \<and> a_tab (pool_run1 es a0) = None \<longrightarrow>
        pool_step1 Get_tab (pool_run1 es a0) =
          enqueue (a_requests (pool_run1 es a0))
            ((pool_run1 es a0)\<lparr>a_requests := Suc (a_requests (pool_run1 es a0))\<rparr>)) \<and>
     (a_tab (pool_run1 es a0) = Some p \<longrightarrow>
        a_granted (pool_step1 Get_tab (pool_run1 es a0)) =
          a_granted (pool_run1 es a0) @ [(a_requests (pool_run1 es a0), p)] \<and>
        a_resolvers (pool_step1 Get_tab (pool_run1 es a0)) = a_resolvers (pool_run1 es a0) \<and>
        a_tab (pool_step1 Get_tab (pool_run1 es a0)) = None) \<and>
     ((\<forall>e \<in> set es'. e \<noteq> Get_tab) \<longrightarrow>
        sorted_wrt (<) (map fst (a_granted (pool_run1 (replicate n Get_tab @ es') a0))))"
proof
  let ?s = "pool_run1 es a0"
  assume a0: "TabAllocator1 (browser_window k) m = Some a0"
  have e: "(\<forall>e \<in> set es'. e \<noteq> Get_tab) \<longrightarrow>
        sorted_wrt (<) (map fst (a_granted (pool_run1 (replicate n Get_tab @ es') a0)))"
    using calls_first_served_in_order [OF a0, of es' n] by blast
  from a0 have "queue_inv a0 \<and> room_inv a0" by (rule TabAllocator1_inv)
  then have inv: "queue_inv ?s" "room_inv ?s" using pool_inv_run1 [of a0 es] by simp_all
  have a: "filter (\<lambda>r. r \<in> set (a_queued ?s)) (map fst (a_granted ?s)) @ a_resolvers ?s = a_queued ?s"
    and b: "sorted_wrt (<) (a_queued ?s)"
    using inv(1) by (simp_all add: queue_inv_def)
  have c: "a_granted (releaseTab1 t ?s) = a_granted ?s \<and> a_resolvers (releaseTab1 t ?s) = a_resolvers ?s \<or>
      (\<exists>tab. a_resolvers ?s \<noteq> [] \<and>
         a_granted (releaseTab1 t ?s) = a_granted ?s @ [(hd (a_resolvers ?s), tab)] \<and>
         a_resolvers (releaseTab1 t ?s) = tl (a_resolvers ?s))"
    using releaseTab1_shape [of t ?s] by auto
  have h: "runs_releaseTab e t ?s \<and> a_tabs ?s \<noteq> 1 \<and> a_resolvers ?s \<noteq> [] \<longrightarrow>
        (if a_tab ?s \<noteq> None \<or> a_tabs ?s \<le> a_maxtabs ?s
         then a_resolvers (pool_step1 e ?s) = tl (a_resolvers ?s) \<and>
              a_granted (pool_step1 e ?s) =
                a_granted ?s @
                  [(hd (a_resolvers ?s),
                    case a_tab ?s of Some p \<Rightarrow> p | None \<Rightarrow> b_next (a_browser ?s))] \<and>
              a_tab (pool_step1 e ?s) = None
         else a_resolvers (pool_step1 e ?s) = a_resolvers ?s \<and>
              a_granted (pool_step1 e ?s) = a_granted ?s)"
    using step1_hands_over [of e t ?s] by blast
  have f: "runs_releaseTab e t ?s \<and> a_tabs ?s = 1 \<longrightarrow>
        a_tab (pool_step1 e ?s) = Some (b_next (a_browser ?s)) \<and>
        (b_next (a_browser ?s), Release_again t) \<in> set (a_thens (pool_step1 e ?s)) \<and>
        b_tabs (a_browser (pool_step1 e ?s)) = b_tabs (a_browser ?s) @ [b_next (a_browser ?s)] \<and>
        a_resolvers (pool_step1 e ?s) = a_resolvers ?s \<and>
        a_granted (pool_step1 e ?s) = a_granted ?s"
    using step1_defers [of e t ?s] by blast
  have g: "a_resolvers ?s \<noteq> [] \<longrightarrow> a_maxtabs ?s \<le> a_tabs ?s"
    using inv(2) by (simp add: room_inv_def)
  have d: "a_resolvers ?s \<noteq> [] \<and> a_tab ?s = None \<longrightarrow>
        pool_step1 Get_tab ?s = enqueue (a_requests ?s) (?s\<lparr>a_requests := Suc (a_requests ?s)\<rparr>)"
    using inv(2) by (simp add: room_inv_def getTab1_queues)
  have sp: "a_tab ?s = Some p \<longrightarrow>
        a_granted (pool_step1 Get_tab ?s) = a_granted ?s @ [(a_requests ?s, p)] \<and>
        a_resolvers (pool_step1 Get_tab ?s) = a_resolvers ?s \<and>
        a_tab (pool_step1 Get_tab ?s) = None"
    using getTab1_takes_spare [of ?s p] by blast
  show "filter (\<lambda>r. r \<in> set (a_queued ?s)) (map fst (a_granted ?s)) @ a_resolvers ?s = a_queued ?s \<and>
     sorted_wrt (<) (a_queued ?s) \<and>
     (a_granted (releaseTab1 t ?s) = a_granted ?s \<and> a_resolvers (releaseTab1 t ?s) = a_resolvers ?s \<or>
      (\<exists>tab. a_resolvers ?s \<noteq> [] \<and>
         a_granted (releaseTab1 t ?s) = a_granted ?s @ [(hd (a_resolvers ?s), tab)] \<and>
         a_resolvers (releaseTab1 t ?s) = tl (a_resolvers ?s))) \<and>
     (runs_releaseTab e t ?s \<and> a_tabs ?s \<noteq> 1 \<and> a_resolvers ?s \<noteq> [] \<longrightarrow>
        (if a_tab ?s \<noteq> None \<or> a_tabs ?s \<le> a_maxtabs ?s
         then a_resolvers (pool_step1 e ?s) = tl (a_resolvers ?s) \<and>
              a_granted (pool_step1 e ?s) =
                a_granted ?s @
                  [(hd (a_resolvers ?s),
                    case a_tab ?s of Some p \<Rightarrow> p | None \<Rightarrow> b_next (a_browser ?s))] \<and>
              a_tab (pool_step1 e ?s) = None
         else a_resolvers (pool_step1 e ?s) = a_resolvers ?s \<and>
              a_granted (pool_step1 e ?s) = a_granted ?s)) \<and>
     (runs_releaseTab e t ?s \<and> a_tabs ?s = 1 \<longrightarrow>
        a_tab (pool_step1 e ?s) = Some (b_next (a_browser ?s)) \<and>
        (b_next (a_browser ?s), Release_again t) \<in> set (a_thens (pool_step1 e ?s)) \<and>
        b_tabs (a_browser (pool_step1 e ?s)) = b_tabs (a_browser ?s) @ [b_next (a_browser ?s)] \<and>
        a_resolvers (pool_step1 e ?s) = a_resolvers ?s \<and>
        a_granted (pool_step1 e ?s) = a_granted ?s) \<and>
     (a_resolvers ?s \<noteq> [] \<longrightarrow> a_maxtabs ?s \<le> a_tabs ?s) \<and>
     (a_resolvers ?s \<noteq> [] \<and> a_tab ?s = None \<longrightarrow>
        pool_step1 Get_tab ?s = enqueue (a_requests ?s) (?s\<lparr>a_requests := Suc (a_requests ?s)\<rparr>)) \<and>
     (a_tab ?s = Some p \<longrightarrow>
        a_granted (pool_step1 Get_tab ?s) = a_granted ?s @ [(a_requests ?s, p)] \<and>
        a_resolvers (pool_step1 Get_tab ?s) = a_resolvers ?s \<and>
        a_tab (pool_step1 Get_tab ?s) = None) \<and>
     ((\<forall>e \<in> set es'. e \<noteq> Get_tab) \<longrightarrow>
        sorted_wrt (<) (map fst (a_granted (pool_run1 (replicate n Get_tab @ es') a0))))"
    using a b c h f g d sp e by (intro conjI)
qed


lemmas pool1_eval =
  getTab1_def releaseTab1_def createTab1_eq grant_def enqueue_def in_use_def drop_then_def
  removeTab_def Let_def

lemma TabAllocator1_window0:
  "TabAllocator1 (browser_window 0) 1 =
     Some \<lparr>a_browser = \<lparr>b_tabs = [0, 1], b_next = 2\<rparr>, a_tabs = 1, a_maxtabs = 1,
       a_resolvers = [], a_tab = Some 1, a_tabInUse = False, a_tabs_prop = Undefined,
       a_thens = [(1, Remove_old 0)], a_retries = [], a_requests = 0, a_granted = [],
       a_queued = [], a_released = []\<rparr>"
  using TabAllocator1_window [of 0 1] by (simp add: empty_allocator_def)

text \<open>
  Claim C6 as stated fails in the first variant, with \<^verbatim>\<open>maxtabs\<close> 1: request 0 takes the
  spare tab 1, request 1 is queued, tab 1 is given back (the allocator creates tab 2 as
  the new spare tab and defers the removal), request 2 arrives and is given tab 2, and
  when tab 2 is ready the deferred release finds nothing to hand out. Request 2 holds
  a tab while request 1, which came before it, still waits.
\<close>

theorem later_request_served_first_counterexample:
  "map_option (pool_run1 [Get_tab, Get_tab, Tab_ready 1, Release 1, Get_tab, Tab_ready 2])
        (TabAllocator1 (browser_window 0) 1)
   = Some \<lparr>a_browser = \<lparr>b_tabs = [2], b_next = 3\<rparr>, a_tabs = 1, a_maxtabs = 1,
       a_resolvers = [1], a_tab = None, a_tabInUse = False, a_tabs_prop = Undefined,
       a_thens = [], a_retries = [], a_requests = 3, a_granted = [(0, 1), (2, 2)],
       a_queued = [1], a_released = [1]\<rparr>"
  by (simp add: TabAllocator1_window0 pool1_eval)


lemma pools_constructed:
  "TabAllocator1 (browser_window 0) 1 = Some one_tab_pool"
  "TabAllocator1 (browser_window 0) 2 = Some two_tab_pool"
  using TabAllocator1_window [of 0 1] TabAllocator1_window [of 0 2]
  by (simp_all add: empty_allocator_def one_tab_pool_def two_tab_pool_def)

theorem queued_requests_served_in_order_witness:
  "TabAllocator1 (browser_window 0) 1 = Some one_tab_pool \<and>
   TabAllocator1 (browser_window 0) 2 = Some two_tab_pool \<and>
   a_tab (pool_run1 [Get_tab, Get_tab, Get_tab, Tab_ready 1, Release 1] one_tab_pool) = Some 2 \<and>
   a_granted (pool_run1 [Get_tab, Get_tab, Get_tab, Tab_ready 1, Release 1] one_tab_pool) = [(0, 1)] \<and>
   a_resolvers (pool_run1 [Get_tab, Get_tab, Get_tab, Tab_ready 1, Release 1] one_tab_pool) = [1, 2] \<and>
   a_granted (pool_run1 [Get_tab, Get_tab, Get_tab, Tab_ready 1, Release 1, Tab_ready 2] one_tab_pool)
     = [(0, 1), (1, 2)] \<and>
   a_resolvers (pool_run1 [Get_tab, Get_tab, Get_tab, Tab_ready 1, Release 1, Tab_ready 2] one_tab_pool)
     = [2] \<and>
   a_granted (pool_run1 [Get_tab, Get_tab, Get_tab, Tab_ready 1, Release 1, Get_tab] one_tab_pool)
     = [(0, 1), (3, 2)] \<and>
   a_resolvers (pool_run1 [Get_tab, Get_tab, Get_tab, Tab_ready 1, Release 1, Get_tab] one_tab_pool)
     = [1, 2] \<and>
   a_granted (pool_run1 [Get_tab, Get_tab, Get_tab, Tab_ready 1, Release 1, Get_tab, Tab_ready 2]
      one_tab_pool) = [(0, 1), (3, 2)] \<and>
   a_resolvers (pool_run1 [Get_tab, Get_tab, Get_tab, Tab_ready 1, Release 1, Get_tab, Tab_ready 2]
      one_tab_pool) = [1, 2] \<and>
   a_resolvers (pool_run1 [Get_tab, Get_tab, Get_tab, Tab_ready 1, Release 1, Get_tab, Get_tab]
      one_tab_pool) = [1, 2, 4] \<and>
   a_granted (pool_run1 [Get_tab, Get_tab, Get_tab, Release 1] two_tab_pool)
     = [(0, 1), (1, 2), (2, 3)] \<and>
   a_resolvers (pool_run1 [Get_tab, Get_tab, Get_tab, Release 1] two_tab_pool) = [] \<and>
   sorted_wrt (<) (map fst (a_granted
     (pool_run1 (replicate 3 Get_tab @ [Tab_ready 1, Release 1, Tab_ready 2]) one_tab_pool)))"
proof -
  let ?e0 = "[Get_tab, Get_tab, Get_tab, Tab_ready 1]"
  let ?e1 = "[Get_tab, Get_tab, Get_tab, Tab_ready 1, Release 1]"
  let ?e2 = "[Get_tab, Get_tab, Get_tab, Tab_ready 1, Release 1, Get_tab]"
  let ?e3 = "[Get_tab, Get_tab, Get_tab]"
  let ?later = "[Tab_ready 1, Release 1, Tab_ready 2]"
  have r0: "pool_run1 ?e0 one_tab_pool =
     \<lparr>a_browser = \<lparr>b_tabs = [1], b_next = 2\<rparr>, a_tabs = 1, a_maxtabs = 1,
       a_resolvers = [1, 2], a_tab = None, a_tabInUse = False, a_tabs_prop = Undefined,
       a_thens = [], a_retries = [], a_requests = 3, a_granted = [(0, 1)],
       a_queued = [1, 2], a_released = []\<rparr>"
    by (simp add: one_tab_pool_def pool1_eval)
  have r1: "pool_run1 ?e1 one_tab_pool =
     \<lparr>a_browser = \<lparr>b_tabs = [1, 2], b_next = 3\<rparr>, a_tabs = 2, a_maxtabs = 1,
       a_resolvers = [1, 2], a_tab = Some 2, a_tabInUse = False, a_tabs_prop = Undefined,
       a_thens = [(2, Release_again 1)], a_retries = [], a_requests = 3, a_granted = [(0, 1)],
       a_queued = [1, 2], a_released = [1]\<rparr>"
    by (simp add: one_tab_pool_def pool1_eval)
  have r2: "pool_run1 ?e2 one_tab_pool =
     \<lparr>a_browser = \<lparr>b_tabs = [1, 2], b_next = 3\<rparr>, a_tabs = 2, a_maxtabs = 1,
       a_resolvers = [1, 2], a_tab = None, a_tabInUse = False, a_tabs_prop = Undefined,
       a_thens = [(2, Release_again 1)], a_retries = [], a_requests = 4,
       a_granted = [(0, 1), (3, 2)], a_queued = [1, 2], a_released = [1]\<rparr>"
    by (simp add: one_tab_pool_def pool1_eval)
  have r3: "pool_run1 ?e3 two_tab_pool =
     \<lparr>a_browser = \<lparr>b_tabs = [0, 1, 2], b_next = 3\<rparr>, a_tabs = 2, a_maxtabs = 2,
       a_resolvers = [2], a_tab = None, a_tabInUse = False, a_tabs_prop = Undefined,
       a_thens = [(1, Remove_old 0)], a_retries = [], a_requests = 3,
       a_granted = [(0, 1), (1, 2)], a_queued = [2], a_released = []\<rparr>"
    by (simp add: one_tab_pool_def two_tab_pool_def pool1_eval)
  have step: "pool_run1 (es @ [e]) a = pool_step1 e (pool_run1 es a)" for es e a
    by (simp add: pool_run1_append)
  have s1: "pool_run1 ?e1 one_tab_pool = pool_step1 (Release 1) (pool_run1 ?e0 one_tab_pool)"
    using step [of ?e0 "Release 1" one_tab_pool] by simp
  have s2: "pool_run1 (?e1 @ [Tab_ready 2]) one_tab_pool =
      pool_step1 (Tab_ready 2) (pool_run1 ?e1 one_tab_pool)"
    "pool_run1 ?e2 one_tab_pool = pool_step1 Get_tab (pool_run1 ?e1 one_tab_pool)"
    using step [of ?e1 "Tab_ready 2" one_tab_pool] step [of ?e1 Get_tab one_tab_pool] by simp_all
  have s3: "pool_run1 (?e2 @ [Tab_ready 2]) one_tab_pool =
      pool_step1 (Tab_ready 2) (pool_run1 ?e2 one_tab_pool)"
    "pool_run1 (?e2 @ [Get_tab]) one_tab_pool = pool_step1 Get_tab (pool_run1 ?e2 one_tab_pool)"
    using step [of ?e2 "Tab_ready 2" one_tab_pool] step [of ?e2 Get_tab one_tab_pool] by simp_all
  have s4: "pool_run1 (?e3 @ [Release 1]) two_tab_pool =
      pool_step1 (Release 1) (pool_run1 ?e3 two_tab_pool)"
    using step [of ?e3 "Release 1" two_tab_pool] by simp
  note i0 = queued_requests_served_in_order [of 0 1 one_tab_pool ?e0 1 "Release 1" 7 ?later 3]
  note i1 = queued_requests_served_in_order [of 0 1 one_tab_pool ?e1 1 "Tab_ready 2" 2 ?later 3]
  note i2 = queued_requests_served_in_order [of 0 1 one_tab_pool ?e2 1 "Tab_ready 2" 7 ?later 3]
  note i3 = queued_requests_served_in_order [of 0 2 two_tab_pool ?e3 1 "Release 1" 7 ?later 3]
  have c0: "a_tab (pool_run1 ?e1 one_tab_pool) = Some 2 \<and>
            a_granted (pool_run1 ?e1 one_tab_pool) = [(0, 1)] \<and>
            a_resolvers (pool_run1 ?e1 one_tab_pool) = [1, 2]"
    using i0 pools_constructed(1) unfolding s1 r0
    by (simp add: runs_releaseTab_def in_use_def)
  have c1: "a_granted (pool_run1 (?e1 @ [Tab_ready 2]) one_tab_pool) = [(0, 1), (1, 2)] \<and>
            a_resolvers (pool_run1 (?e1 @ [Tab_ready 2]) one_tab_pool) = [2]"
    using i1 pools_constructed(1) unfolding s2 r1
    by (simp add: runs_releaseTab_def)
  have c2: "a_granted (pool_run1 ?e2 one_tab_pool) = [(0, 1), (3, 2)] \<and>
            a_resolvers (pool_run1 ?e2 one_tab_pool) = [1, 2]"
    using i1 pools_constructed(1) unfolding s2 r1
    by (simp add: runs_releaseTab_def)
  have c3: "a_granted (pool_run1 (?e2 @ [Tab_ready 2]) one_tab_pool) = [(0, 1), (3, 2)] \<and>
            a_resolvers (pool_run1 (?e2 @ [Tab_ready 2]) one_tab_pool) = [1, 2]"
    using i2 pools_constructed(1) unfolding s3 r2
    by (simp add: runs_releaseTab_def)
  have c4: "a_resolvers (pool_run1 (?e2 @ [Get_tab]) one_tab_pool) = [1, 2, 4]"
    using i2 pools_constructed(1) unfolding s3 r2
    by (simp add: runs_releaseTab_def enqueue_def)
  have c5: "a_granted (pool_run1 (?e3 @ [Release 1]) two_tab_pool) = [(0, 1), (1, 2), (2, 3)] \<and>
            a_resolvers (pool_run1 (?e3 @ [Release 1]) two_tab_pool) = []"
    using i3 pools_constructed(2) unfolding s4 r3
    by (simp add: runs_releaseTab_def in_use_def)
  have later: "\<forall>e \<in> set ?later. e \<noteq> Get_tab" by simp
  have c6: "sorted_wrt (<) (map fst (a_granted (pool_run1 (replicate 3 Get_tab @ ?later) one_tab_pool)))"
    using i0 pools_constructed(1) later by blast
  show ?thesis
    using pools_constructed c0 c1 c2 c3 c4 c5 c6 by simp
qed

lemmas pool2_eval =
  getTab2_def releaseTab2_def createTab2_def addTab_def grant_def enqueue_def in_use_def
  drop_then_def removeTab_def removeAllTabsBut_def Let_def

lemma TabAllocator2_window0:
  "TabAllocator2 (browser_window 0) 1 =
     \<lparr>a_browser = \<lparr>b_tabs = [0, 1], b_next = 2\<rparr>, a_tabs = 0, a_maxtabs = 1,
       a_resolvers = [], a_tab = Some 1, a_tabInUse = False, a_tabs_prop = NaN,
       a_thens = [(1, Bootstrap)], a_retries = [], a_requests = 0, a_granted = [],
       a_queued = [], a_released = []\<rparr>"
  by (simp add: TabAllocator2_def createTab2_def addTab_def browser_window_def empty_allocator_def)

text \<open>
  Claim C1, in the second variant, with \<^verbatim>\<open>maxtabs\<close> 1 and three jobs started by the loop
  of \<^verbatim>\<open>crawl_urls\<close>: request 0 gets the first tab, requests 1 and 2 are chained on its
  promise; when the tab is ready each of them runs \<^verbatim>\<open>getTab\<close> again, finds \<^verbatim>\<open>_tabs\<close>
  still 0 (it is \<^verbatim>\<open>this.tabs\<close> that \<^verbatim>\<open>_createTab\<close> increments) and creates a tab. Three
  tabs are in use at once and nothing was queued.
\<close>

theorem capacity_exceeded_in_second_variant:
  "pool_run2 [Get_tab, Get_tab, Get_tab, Tab_ready 1, Retry 1, Retry 2]
     (TabAllocator2 (browser_window 0) 1) =
     \<lparr>a_browser = \<lparr>b_tabs = [1, 2, 3], b_next = 4\<rparr>, a_tabs = 0, a_maxtabs = 1,
       a_resolvers = [], a_tab = None, a_tabInUse = True, a_tabs_prop = NaN,
       a_thens = [], a_retries = [], a_requests = 3,
       a_granted = [(0, 1), (1, 2), (2, 3)], a_queued = [], a_released = []\<rparr> \<and>
   in_use (pool_run2 [Get_tab, Get_tab, Get_tab, Tab_ready 1, Retry 1, Retry 2]
     (TabAllocator2 (browser_window 0) 1)) = [1, 2, 3]"
proof -
  have r: "pool_run2 [Get_tab, Get_tab, Get_tab, Tab_ready 1, Retry 1, Retry 2]
     (TabAllocator2 (browser_window 0) 1) =
     \<lparr>a_browser = \<lparr>b_tabs = [1, 2, 3], b_next = 4\<rparr>, a_tabs = 0, a_maxtabs = 1,
       a_resolvers = [], a_tab = None, a_tabInUse = True, a_tabs_prop = NaN,
       a_thens = [], a_retries = [], a_requests = 3,
       a_granted = [(0, 1), (1, 2), (2, 3)], a_queued = [], a_released = []\<rparr>"
    by (simp add: TabAllocator2_window0 pool2_eval)
  show ?thesis unfolding r by (simp add: in_use_def)
qed

text \<open>
  Claim C7, in the second variant, with one job: the job gets the only tab, and when it
  gives the tab back \<^verbatim>\<open>_tabs\<close> is 0, not 1, so the branch that creates a replacement is
  not taken and the tab is removed at once: the browser is left with no tab.
\<close>

theorem last_tab_removed_in_second_variant:
  "pool_run2 [Get_tab, Tab_ready 1] (TabAllocator2 (browser_window 0) 1) =
     \<lparr>a_browser = \<lparr>b_tabs = [1], b_next = 2\<rparr>, a_tabs = 0, a_maxtabs = 1,
       a_resolvers = [], a_tab = None, a_tabInUse = True, a_tabs_prop = NaN,
       a_thens = [], a_retries = [], a_requests = 1, a_granted = [(0, 1)],
       a_queued = [], a_released = []\<rparr> \<and>
   pool_run2 [Get_tab, Tab_ready 1, Release 1] (TabAllocator2 (browser_window 0) 1) =
     \<lparr>a_browser = \<lparr>b_tabs = [], b_next = 2\<rparr>, a_tabs = - 1, a_maxtabs = 1,
       a_resolvers = [], a_tab = None, a_tabInUse = True, a_tabs_prop = NaN,
       a_thens = [], a_retries = [], a_requests = 1, a_granted = [(0, 1)],
       a_queued = [], a_released = [1]\<rparr>"
  by (simp add: TabAllocator2_window0 pool2_eval)

subsection \<open>The second variant never counts its tabs\<close>

lemma counter_inv_getTab2: "1 \<le> m \<Longrightarrow> counter_inv m a \<Longrightarrow> counter_inv m (getTab2 r a)"
  by (cases "a_tab a")
     (auto simp: counter_inv_def getTab2_def createTab2_def addTab_def grant_def enqueue_def)

lemma counter_inv_releaseTab2:
  "counter_inv m a \<Longrightarrow>
   counter_inv m (releaseTab2 t a) \<and>
   releaseTab2 t a = a\<lparr>a_browser := removeTab t (a_browser a), a_tabs := a_tabs a - 1\<rparr>"
  by (auto simp: counter_inv_def releaseTab2_def Let_def)

lemma counter_inv_step2: "1 \<le> m \<Longrightarrow> counter_inv m a \<Longrightarrow> counter_inv m (pool_step2 e a)"
proof (cases e)
  case Get_tab
  assume m: "1 \<le> m" and inv: "counter_inv m a"
  have "counter_inv m (a\<lparr>a_requests := Suc (a_requests a)\<rparr>)"
    using inv by (simp add: counter_inv_def)
  then show ?thesis using Get_tab counter_inv_getTab2 [OF m] by simp
next
  case (Release t)
  assume inv: "counter_inv m a"
  show ?thesis
    using Release inv by (auto simp: counter_inv_def releaseTab2_def Let_def)
next
  case (Tab_ready n)
  assume inv: "counter_inv m a"
  show ?thesis
    using Tab_ready inv
    by (auto simp: counter_inv_def drop_then_def releaseTab2_def Let_def
             split: option.splits then_callback.splits)
next
  case (Retry r)
  assume m: "1 \<le> m" and inv: "counter_inv m a"
  have "counter_inv m (a\<lparr>a_retries := x\<rparr>)" for x
    using inv by (simp add: counter_inv_def)
  then show ?thesis
    using Retry inv counter_inv_getTab2 [OF m]
    by (simp split: list.splits prod.splits)
qed

text \<open>
  Whatever happens to a pool of the second variant with a limit of at least one tab:
  its counter is never positive, no request waits, and \<^verbatim>\<open>releaseTab\<close> does nothing but
  remove the tab and decrement the counter; it neither creates a replacement nor hands
  the tab to a waiting request.
\<close>

lemma second_variant_never_counts:
  assumes "1 \<le> m"
  shows "a_tabs (pool_run2 es (TabAllocator2 b m)) \<le> 0"
    and "a_resolvers (pool_run2 es (TabAllocator2 b m)) = []"
    and "releaseTab2 t (pool_run2 es (TabAllocator2 b m)) =
           (pool_run2 es (TabAllocator2 b m))
             \<lparr>a_browser := removeTab t (a_browser (pool_run2 es (TabAllocator2 b m))),
              a_tabs := a_tabs (pool_run2 es (TabAllocator2 b m)) - 1\<rparr>"
proof -
  have i: "counter_inv m (TabAllocator2 b m)"
    by (simp add: counter_inv_def TabAllocator2_def createTab2_def addTab_def empty_allocator_def)
  have "counter_inv m a \<Longrightarrow> counter_inv m (pool_run2 es a)" for a
    by (induction es arbitrary: a) (simp_all add: counter_inv_step2 [OF assms])
  then have inv: "counter_inv m (pool_run2 es (TabAllocator2 b m))" using i by blast
  show "a_tabs (pool_run2 es (TabAllocator2 b m)) \<le> 0"
    and "a_resolvers (pool_run2 es (TabAllocator2 b m)) = []"
    using inv by (simp_all add: counter_inv_def)
  show "releaseTab2 t (pool_run2 es (TabAllocator2 b m)) =
           (pool_run2 es (TabAllocator2 b m))
             \<lparr>a_browser := removeTab t (a_browser (pool_run2 es (TabAllocator2 b m))),
              a_tabs := a_tabs (pool_run2 es (TabAllocator2 b m)) - 1\<rparr>"
    using counter_inv_releaseTab2 [OF inv] by blast
qed

subsection \<open>The first variant keeps the bound and the last tab\<close>

lemma filter_notin_snoc:
  "filter (\<lambda>x. x \<noteq> t \<and> x \<notin> set ys) xs = removeAll t (filter (\<lambda>x. x \<notin> set ys) xs)"
  by (induction xs) auto

lemma in_use_released:
  "in_use (a\<lparr>a_released := a_released a @ [t]\<rparr>) = removeAll t (in_use a)"
  by (simp add: in_use_def filter_notin_snoc)

lemma in_use_grant:
  "t \<notin> set (a_released a) \<Longrightarrow> in_use (grant r t a) = in_use a @ [t]"
  by (simp add: in_use_def grant_def)

lemma TabAllocator1_pool1_inv:
  "TabAllocator1 (browser_window k) m = Some a \<Longrightarrow> pool1_inv [] a"
  unfolding TabAllocator1_window
  by (auto simp: pool1_inv_def empty_allocator_def in_use_def spare_def deferred_def olds_def)

lemma pool1_inv_fresh:
  assumes "pool1_inv ex a"
  shows "b_next (a_browser a) \<notin> set (a_released a)"
    and "b_next (a_browser a) \<notin> snd ` set (a_granted a)"
    and "b_next (a_browser a) \<notin> set (b_tabs (a_browser a))"
    and "b_next (a_browser a) \<notin> set (in_use a @ spare a @ deferred a @ ex @ olds a)"
    and "b_next (a_browser a) \<notin> fst ` set (a_thens a)"
proof -
  have g: "\<forall>p \<in> set (a_granted a). snd p < b_next (a_browser a)"
    and r: "set (a_released a) \<subseteq> snd ` set (a_granted a)"
    and b: "\<forall>t \<in> set (b_tabs (a_browser a)). t < b_next (a_browser a)"
    and l: "set (in_use a @ spare a @ deferred a @ ex @ olds a) \<subseteq> set (b_tabs (a_browser a))"
    and t: "\<forall>p \<in> set (a_thens a). fst p < b_next (a_browser a)"
    using assms unfolding pool1_inv_def by blast+
  show 2: "b_next (a_browser a) \<notin> snd ` set (a_granted a)" using g by fastforce
  show "b_next (a_browser a) \<notin> set (a_released a)" using 2 r by blast
  show 3: "b_next (a_browser a) \<notin> set (b_tabs (a_browser a))" using b by fastforce
  show "b_next (a_browser a) \<notin> set (in_use a @ spare a @ deferred a @ ex @ olds a)"
    using 3 l by blast
  show "b_next (a_browser a) \<notin> fst ` set (a_thens a)" using t by fastforce
qed

lemma spare_simps:
  "a_tab a = None \<Longrightarrow> spare a = []" "a_tab a = Some t \<Longrightarrow> spare a = [t]"
  by (simp_all add: spare_def)

lemma pool1_inv_take:
  assumes inv: "pool1_inv [] a" and s: "a_tab a = Some t"
  shows "pool1_inv [] (grant r t (a\<lparr>a_tab := None\<rparr>))"
proof -
  have u: "in_use a = []" using inv s unfolding pool1_inv_def by simp
  have sp: "spare a = [t]" using s by (simp add: spare_def)
  have "t \<notin> snd ` set (a_granted a)" using inv sp unfolding pool1_inv_def by simp
  then have nr: "t \<notin> set (a_released a)" using inv unfolding pool1_inv_def by blast
  have u': "in_use (grant r t (a\<lparr>a_tab := None\<rparr>)) = [t]"
    using in_use_grant [of t "a\<lparr>a_tab := None\<rparr>" r] nr u by (simp add: in_use_def)
  have f: "spare (grant r t (a\<lparr>a_tab := None\<rparr>)) = []"
    "deferred (grant r t (a\<lparr>a_tab := None\<rparr>)) = deferred a"
    "olds (grant r t (a\<lparr>a_tab := None\<rparr>)) = olds a"
    "a_tabs (grant r t (a\<lparr>a_tab := None\<rparr>)) = a_tabs a"
    "a_browser (grant r t (a\<lparr>a_tab := None\<rparr>)) = a_browser a"
    "a_tab (grant r t (a\<lparr>a_tab := None\<rparr>)) = None"
    "a_granted (grant r t (a\<lparr>a_tab := None\<rparr>)) = a_granted a @ [(r, t)]"
    "a_released (grant r t (a\<lparr>a_tab := None\<rparr>)) = a_released a"
    "a_thens (grant r t (a\<lparr>a_tab := None\<rparr>)) = a_thens a"
    "a_maxtabs (grant r t (a\<lparr>a_tab := None\<rparr>)) = a_maxtabs a"
    by (simp_all add: grant_def spare_def deferred_def olds_def)
  have tb: "t \<in> set (b_tabs (a_browser a))" using inv sp unfolding pool1_inv_def by simp
  then have lt: "t < b_next (a_browser a)" using inv unfolding pool1_inv_def by blast
  show ?thesis
    unfolding pool1_inv_def f u'
    using inv u sp lt unfolding pool1_inv_def
    by (auto simp: image_iff)
qed


lemma pool1_inv_create:
  assumes inv: "pool1_inv [] a" and s: "a_tab a = None"
    and room: "int (length (in_use a)) < a_maxtabs a"
  shows "pool1_inv [] (grant r (b_next (a_browser a)) (snd (createTab1 a)))"
proof -
  let ?n = "b_next (a_browser a)"
  let ?a = "grant r ?n (snd (createTab1 a))"
  note fr = pool1_inv_fresh [OF inv]
  have u': "in_use ?a = in_use a @ [?n]"
    using in_use_grant [of ?n "snd (createTab1 a)" r] fr(1)
    by (simp add: createTab1_eq in_use_def)
  have f: "spare ?a = []" "deferred ?a = deferred a" "olds ?a = olds a"
    "a_tabs ?a = a_tabs a + 1"
    "b_tabs (a_browser ?a) = b_tabs (a_browser a) @ [?n]"
    "b_next (a_browser ?a) = Suc ?n"
    "a_tab ?a = None"
    "a_granted ?a = a_granted a @ [(r, ?n)]"
    "a_released ?a = a_released a"
    "a_thens ?a = a_thens a"
    "a_maxtabs ?a = a_maxtabs a"
    using s by (simp_all add: grant_def spare_def deferred_def olds_def createTab1_eq)
  have sp: "spare a = []" using s by (simp add: spare_def)
  show ?thesis
    unfolding pool1_inv_def f u'
    using inv sp fr room unfolding pool1_inv_def
    by (auto simp: image_iff less_Suc_eq)
qed

lemma pool1_inv_replace:
  assumes inv: "pool1_inv [t] a" and one: "a_tabs a = 1"
  shows "pool1_inv []
     ((snd (createTab1 a))\<lparr>a_tab := Some (b_next (a_browser a)),
        a_thens := a_thens (snd (createTab1 a)) @ [(b_next (a_browser a), Release_again t)]\<rparr>)"
proof -
  let ?n = "b_next (a_browser a)"
  let ?a = "(snd (createTab1 a))\<lparr>a_tab := Some ?n,
        a_thens := a_thens (snd (createTab1 a)) @ [(?n, Release_again t)]\<rparr>"
  note fr = pool1_inv_fresh [OF inv]
  have "a_tabs a = int (length (in_use a) + length (spare a) + length (deferred a) + length [t])"
    using inv unfolding pool1_inv_def by blast
  then have "int (length (in_use a) + length (spare a) + length (deferred a) + length [t]) = 1"
    using one by metis
  then have "length (in_use a) + length (spare a) + length (deferred a) + length [t] = 1"
    by (simp only: of_nat_eq_1_iff)
  then have e: "in_use a = []" "spare a = []" "deferred a = []" by simp_all
  have f: "in_use ?a = []" "spare ?a = [?n]" "deferred ?a = [t]" "olds ?a = olds a"
    "a_tabs ?a = 2"
    "b_tabs (a_browser ?a) = b_tabs (a_browser a) @ [?n]"
    "b_next (a_browser ?a) = Suc ?n"
    "a_tab ?a = Some ?n"
    "a_granted ?a = a_granted a"
    "a_released ?a = a_released a"
    "a_thens ?a = a_thens a @ [(?n, Release_again t)]"
    "a_maxtabs ?a = a_maxtabs a"
    using e one by (simp_all add: spare_def deferred_def olds_def createTab1_eq in_use_def)
  show ?thesis
    unfolding pool1_inv_def f
    using inv e fr unfolding pool1_inv_def
    by (auto simp: image_iff less_Suc_eq)
qed

lemma pool1_inv_remove:
  assumes inv: "pool1_inv [t] a" and more: "a_tabs a \<noteq> 1"
  shows "pool1_inv [] (a\<lparr>a_browser := removeTab t (a_browser a), a_tabs := a_tabs a - 1\<rparr>)"
proof -
  let ?a = "a\<lparr>a_browser := removeTab t (a_browser a), a_tabs := a_tabs a - 1\<rparr>"
  have f: "in_use ?a = in_use a" "spare ?a = spare a" "deferred ?a = deferred a" "olds ?a = olds a"
    "a_tabs ?a = a_tabs a - 1"
    "b_tabs (a_browser ?a) = removeAll t (b_tabs (a_browser a))"
    "b_next (a_browser ?a) = b_next (a_browser a)"
    "a_tab ?a = a_tab a"
    "a_granted ?a = a_granted a"
    "a_released ?a = a_released a"
    "a_thens ?a = a_thens a"
    "a_maxtabs ?a = a_maxtabs a"
    by (simp_all add: spare_def deferred_def olds_def in_use_def removeTab_def)
  show ?thesis
    unfolding pool1_inv_def f
    using inv more unfolding pool1_inv_def
    by auto
qed

lemma pool1_inv_mark:
  assumes inv: "pool1_inv [] a" and t: "t \<in> set (in_use a)"
  shows "pool1_inv [t] (a\<lparr>a_released := a_released a @ [t]\<rparr>)"
proof -
  let ?a = "a\<lparr>a_released := a_released a @ [t]\<rparr>"
  have d: "distinct (in_use a)" using inv unfolding pool1_inv_def by simp
  have len: "Suc (length (removeAll t (in_use a))) = length (in_use a)"
    using length_removeAll_distinct [OF d t] .
  have g: "t \<in> snd ` set (a_granted a)" using t by (auto simp: in_use_def)
  have f: "in_use ?a = removeAll t (in_use a)" "spare ?a = spare a" "deferred ?a = deferred a"
    "olds ?a = olds a" "a_tabs ?a = a_tabs a" "a_browser ?a = a_browser a" "a_tab ?a = a_tab a"
    "a_granted ?a = a_granted a" "a_released ?a = a_released a @ [t]" "a_thens ?a = a_thens a"
    "a_maxtabs ?a = a_maxtabs a"
    using in_use_released [of a t] by (simp_all add: spare_def deferred_def olds_def)
  have none: "a_tab a = None" using inv t unfolding pool1_inv_def by (cases "a_tab a") auto
  show ?thesis
    unfolding pool1_inv_def f
    using inv t len g none distinct_removeAll [OF d, of t] unfolding pool1_inv_def
    by (auto simp: spare_def)
qed


lemma thens_split:
  assumes "distinct (map fst ps)" "map_of ps n = Some c"
  shows "\<exists>xs ys. ps = xs @ (n, c) # ys \<and> filter (\<lambda>p. fst p \<noteq> n) ps = xs @ ys"
proof -
  have "(n, c) \<in> set ps" using assms(2) by (rule map_of_SomeD)
  then obtain xs ys where ps: "ps = xs @ (n, c) # ys" by (meson split_list)
  then have "n \<notin> fst ` set xs" "n \<notin> fst ` set ys" using assms(1) by auto
  then have "filter (\<lambda>p. fst p \<noteq> n) xs = xs" "filter (\<lambda>p. fst p \<noteq> n) ys = ys"
    by (auto simp: filter_id_conv)
  then show ?thesis using ps by auto
qed

lemma pool1_inv_drop_release:
  assumes inv: "pool1_inv [] a" and m: "map_of (a_thens a) n = Some (Release_again old)"
  shows "pool1_inv [old] (drop_then n a)"
proof -
  have d: "distinct (map fst (a_thens a))" using inv unfolding pool1_inv_def by blast
  obtain xs ys where sp: "a_thens a = xs @ (n, Release_again old) # ys"
      "filter (\<lambda>p. fst p \<noteq> n) (a_thens a) = xs @ ys"
    using thens_split [OF d m] by blast
  let ?D = "\<lambda>l. concat (map (\<lambda>p. case snd p of Release_again old \<Rightarrow> [old] | _ \<Rightarrow> []) l)"
  let ?O = "\<lambda>l. concat (map (\<lambda>p. case snd p of Remove_old old \<Rightarrow> [old] | _ \<Rightarrow> []) l)"
  have old: "deferred a = ?D xs @ [old] @ ?D ys" "olds a = ?O xs @ ?O ys"
    using sp(1) by (simp_all add: deferred_def olds_def)
  have f: "in_use (drop_then n a) = in_use a" "spare (drop_then n a) = spare a"
    "deferred (drop_then n a) = ?D xs @ ?D ys" "olds (drop_then n a) = ?O xs @ ?O ys"
    "a_tabs (drop_then n a) = a_tabs a" "a_browser (drop_then n a) = a_browser a"
    "a_tab (drop_then n a) = a_tab a" "a_granted (drop_then n a) = a_granted a"
    "a_released (drop_then n a) = a_released a" "a_thens (drop_then n a) = xs @ ys"
    "a_maxtabs (drop_then n a) = a_maxtabs a"
    using sp(2) by (simp_all add: drop_then_def in_use_def spare_def deferred_def olds_def)
  show ?thesis
    unfolding pool1_inv_def f
    using inv unfolding pool1_inv_def old sp(1)
    by auto
qed

lemma pool1_inv_drop_old:
  assumes inv: "pool1_inv [] a" and m: "map_of (a_thens a) n = Some (Remove_old old)"
  shows "pool1_inv [] ((drop_then n a)\<lparr>a_browser := removeTab old (a_browser a)\<rparr>)"
proof -
  let ?a = "(drop_then n a)\<lparr>a_browser := removeTab old (a_browser a)\<rparr>"
  have d: "distinct (map fst (a_thens a))" using inv unfolding pool1_inv_def by blast
  obtain xs ys where sp: "a_thens a = xs @ (n, Remove_old old) # ys"
      "filter (\<lambda>p. fst p \<noteq> n) (a_thens a) = xs @ ys"
    using thens_split [OF d m] by blast
  let ?D = "\<lambda>l. concat (map (\<lambda>p. case snd p of Release_again old \<Rightarrow> [old] | _ \<Rightarrow> []) l)"
  let ?O = "\<lambda>l. concat (map (\<lambda>p. case snd p of Remove_old old \<Rightarrow> [old] | _ \<Rightarrow> []) l)"
  have old: "deferred a = ?D xs @ ?D ys" "olds a = ?O xs @ [old] @ ?O ys"
    using sp(1) by (simp_all add: deferred_def olds_def)
  have f: "in_use ?a = in_use a" "spare ?a = spare a"
    "deferred ?a = ?D xs @ ?D ys" "olds ?a = ?O xs @ ?O ys"
    "a_tabs ?a = a_tabs a" "b_tabs (a_browser ?a) = removeAll old (b_tabs (a_browser a))"
    "b_next (a_browser ?a) = b_next (a_browser a)"
    "a_tab ?a = a_tab a" "a_granted ?a = a_granted a"
    "a_released ?a = a_released a" "a_thens ?a = xs @ ys"
    "a_maxtabs ?a = a_maxtabs a"
    using sp(2)
    by (simp_all add: drop_then_def in_use_def spare_def deferred_def olds_def removeTab_def)
  show ?thesis
    unfolding pool1_inv_def f
    using inv unfolding pool1_inv_def old sp(1)
    by auto
qed

lemma pool1_inv_other_fields:
  "pool1_inv ex (a\<lparr>a_resolvers := rs\<rparr>) = pool1_inv ex a"
  "pool1_inv ex (a\<lparr>a_requests := n\<rparr>) = pool1_inv ex a"
  "pool1_inv ex (enqueue r a) = pool1_inv ex a"
  by (simp_all add: pool1_inv_def in_use_def spare_def deferred_def olds_def enqueue_def)

lemma pool1_inv_in_use_le:
  "pool1_inv ex a \<Longrightarrow> int (length (in_use a)) + int (length ex) \<le> a_tabs a"
  unfolding pool1_inv_def by linarith

lemma pool1_inv_getTab1:
  assumes inv: "pool1_inv [] a"
  shows "pool1_inv [] (getTab1 r a)"
proof (cases "a_tab a")
  case (Some t)
  then show ?thesis using pool1_inv_take [OF inv Some, of r] by (simp add: getTab1_def)
next
  case None
  show ?thesis
  proof (cases "a_tabs a < a_maxtabs a")
    case True
    then have "int (length (in_use a)) < a_maxtabs a"
      using pool1_inv_in_use_le [OF inv] by simp
    then show ?thesis
      using pool1_inv_create [OF inv None, of r] None True by (simp add: getTab1_def createTab1_eq)
  next
    case False
    then show ?thesis using None inv by (simp add: getTab1_def pool1_inv_other_fields)
  qed
qed

lemma pool1_inv_releaseTab1:
  assumes inv: "pool1_inv [t] a"
  shows "pool1_inv [] (releaseTab1 t a)"
proof (cases "a_tabs a = 1")
  case True
  then show ?thesis
    using pool1_inv_replace [OF inv True] by (simp add: releaseTab1_def createTab1_eq)
next
  case False
  let ?a1 = "a\<lparr>a_browser := removeTab t (a_browser a), a_tabs := a_tabs a - 1\<rparr>"
  have inv1: "pool1_inv [] ?a1" using pool1_inv_remove [OF inv False] .
  show ?thesis
  proof (cases "a_resolvers a")
    case Nil
    then show ?thesis using False inv1 by (simp add: releaseTab1_def Let_def)
  next
    case (Cons r rs)
    have inv2: "pool1_inv [] (?a1\<lparr>a_resolvers := rs\<rparr>)"
      using inv1 by (simp only: pool1_inv_other_fields)
    show ?thesis
    proof (cases "a_tab a")
      case (Some kept)
      have "pool1_inv [] (grant r kept (?a1\<lparr>a_resolvers := rs, a_tab := None\<rparr>))"
        using pool1_inv_take [OF inv2, of kept r] Some by simp
      moreover have "(grant r kept (?a1\<lparr>a_resolvers := rs\<rparr>))\<lparr>a_tab := None\<rparr>
          = grant r kept (?a1\<lparr>a_resolvers := rs, a_tab := None\<rparr>)"
        by (simp add: grant_def)
      ultimately show ?thesis using False Cons Some by (simp add: releaseTab1_def Let_def)
    next
      case None
      show ?thesis
      proof (cases "a_tabs a - 1 < a_maxtabs a")
        case True
        have "int (length (in_use (?a1\<lparr>a_resolvers := rs\<rparr>))) < a_maxtabs (?a1\<lparr>a_resolvers := rs\<rparr>)"
          using pool1_inv_in_use_le [OF inv2] True by simp
        then have "pool1_inv [] (grant r (b_next (a_browser (?a1\<lparr>a_resolvers := rs\<rparr>)))
            (snd (createTab1 (?a1\<lparr>a_resolvers := rs\<rparr>))))"
          using pool1_inv_create [OF inv2, of r] None by simp
        then show ?thesis
          using False Cons None True by (simp add: releaseTab1_def Let_def createTab1_eq)
      next
        case False2: False
        then show ?thesis using False Cons None inv1 by (simp add: releaseTab1_def Let_def)
      qed
    qed
  qed
qed

lemma pool1_inv_step1: "pool1_inv [] a \<Longrightarrow> pool1_inv [] (pool_step1 e a)"
proof (cases e)
  case Get_tab
  assume inv: "pool1_inv [] a"
  then have "pool1_inv [] (a\<lparr>a_requests := Suc (a_requests a)\<rparr>)"
    by (simp only: pool1_inv_other_fields)
  then show ?thesis using Get_tab pool1_inv_getTab1 by simp
next
  case (Release t)
  assume inv: "pool1_inv [] a"
  show ?thesis
  proof (cases "t \<in> set (in_use a)")
    case True
    then show ?thesis
      using Release pool1_inv_releaseTab1 [OF pool1_inv_mark [OF inv True]] by simp
  next
    case False
    then show ?thesis using Release inv by simp
  qed
next
  case (Tab_ready n)
  assume inv: "pool1_inv [] a"
  show ?thesis
  proof (cases "map_of (a_thens a) n")
    case None
    then show ?thesis using Tab_ready inv by simp
  next
    case (Some c)
    show ?thesis
    proof (cases c)
      case (Remove_old old)
      then show ?thesis
        using Tab_ready Some pool1_inv_drop_old [OF inv, of n old] by simp
    next
      case (Release_again old)
      then show ?thesis
        using Tab_ready Some pool1_inv_releaseTab1 [OF pool1_inv_drop_release [OF inv, of n old]]
        by simp
    next
      case Bootstrap
      then show ?thesis using Tab_ready Some inv by simp
    next
      case (Replace old)
      then show ?thesis using Tab_ready Some inv by simp
    qed
  qed
next
  case (Retry r)
  assume "pool1_inv [] a"
  then show ?thesis using Retry by simp
qed

lemma pool1_inv_run1: "pool1_inv [] a \<Longrightarrow> pool1_inv [] (pool_run1 es a)"
  by (induction es arbitrary: a) (simp_all add: pool1_inv_step1)

text \<open>
  The first variant keeps the bound and the last tab: in every state it can reach,
  the tabs in use are at most \<^verbatim>\<open>maxtabs\<close> (at most one when \<^verbatim>\<open>maxtabs\<close> is below one, for
  the spare tab is handed out whatever the limit), the browser has a tab open, and once
  \<^verbatim>\<open>maxtabs\<close> tabs are in use a further \<^verbatim>\<open>getTab\<close> is queued.
\<close>

lemma first_variant_keeps_bound_and_last_tab:
  assumes "TabAllocator1 (browser_window k) m = Some a0"
  shows "int (length (in_use (pool_run1 es a0))) \<le> max m 1"
    and "b_tabs (a_browser (pool_run1 es a0)) \<noteq> []"
    and "a_maxtabs (pool_run1 es a0) = m"
    and "1 \<le> m \<Longrightarrow> int (length (in_use (pool_run1 es a0))) = m \<Longrightarrow>
         pool_step1 Get_tab (pool_run1 es a0) =
           enqueue (a_requests (pool_run1 es a0))
             ((pool_run1 es a0)\<lparr>a_requests := Suc (a_requests (pool_run1 es a0))\<rparr>)"
proof -
  let ?s = "pool_run1 es a0"
  have inv: "pool1_inv [] ?s"
    using pool1_inv_run1 [OF TabAllocator1_pool1_inv [OF assms]] .
  have mx: "a_maxtabs (pool_step1 e a) = a_maxtabs a" for e a
    by (cases e) (auto simp: getTab1_same releaseTab1_same drop_then_def
        split: option.splits then_callback.splits)
  have "a_maxtabs (pool_run1 es a) = a_maxtabs a" for a
    by (induction es arbitrary: a) (simp_all add: mx)
  moreover have "a_maxtabs a0 = m"
    using assms unfolding TabAllocator1_window by (auto simp: empty_allocator_def)
  ultimately show m: "a_maxtabs ?s = m" by simp
  show "int (length (in_use ?s)) \<le> max m 1"
    using inv m unfolding pool1_inv_def by simp
  have "1 \<le> int (length (in_use ?s) + length (spare ?s) + length (deferred ?s) + length ([]::nat list))"
    using inv unfolding pool1_inv_def by metis
  then have "in_use ?s @ spare ?s @ deferred ?s \<noteq> []" by auto
  moreover have "set (in_use ?s @ spare ?s @ deferred ?s) \<subseteq> set (b_tabs (a_browser ?s))"
    using inv unfolding pool1_inv_def by auto
  ultimately show "b_tabs (a_browser ?s) \<noteq> []" by (metis set_empty subset_empty)
  show "pool_step1 Get_tab ?s = enqueue (a_requests ?s) (?s\<lparr>a_requests := Suc (a_requests ?s)\<rparr>)"
    if full: "1 \<le> m" "int (length (in_use ?s)) = m"
  proof -
    have "in_use ?s \<noteq> []" using full by auto
    then have none: "a_tab ?s = None" using inv unfolding pool1_inv_def by blast
    have "a_maxtabs ?s \<le> a_tabs ?s"
      using pool1_inv_in_use_le [OF inv] full m by simp
    then show ?thesis using none by (simp add: getTab1_queues)
  qed
qed

end
